theory Spec2Isabelle
  imports Main "HOL-Library.Word" "HOL-Library.Multiset"
begin

section \<open>The MafiaGame contract as a state machine\<close>

text \<open>
  A shallow embedding of the Solidity contract \<^verbatim>\<open>MafiaGame\<close>. Storage is a record that
  every operation receives and returns; a \<^verbatim>\<open>revert\<close> (a custom error or a compiler
  inserted panic) is the left summand of the result, and the transaction wrapper
  \<open>exec\<close> keeps the storage of the caller when an operation reverts, as the EVM does.
  Solidity 0.8 checks arithmetic and array indices: those checks are branches returning
  \<open>Panic\<close> with the compiler's code (17 overflow, 50 index out of bounds).
\<close>

subsection \<open>Machine types\<close>

type_synonym address = "160 word"
type_synonym u256 = "256 word"
type_synonym u8 = "8 word"

text \<open>An \<^verbatim>\<open>euint8\<close> is a 32-byte handle of the confidential value engine.\<close>

type_synonym euint8 = "256 word"

text \<open>
  A Solidity array of static size 4 (\<^verbatim>\<open>address[4]\<close>, \<^verbatim>\<open>uint8[4]\<close>, \<^verbatim>\<open>bool[4]\<close>):
  exactly four cells. \<open>get4\<close> and \<open>set4\<close> are used below the bounds check \<open>i < 4\<close>
  that the compiler performs on every access.
\<close>

datatype 'a arr4 = Arr4 'a 'a 'a 'a

fun get4 :: "'a arr4 \<Rightarrow> nat \<Rightarrow> 'a" where
  "get4 (Arr4 a b c d) i = (if i = 0 then a else if i = 1 then b else if i = 2 then c else d)"

fun set4 :: "'a arr4 \<Rightarrow> nat \<Rightarrow> 'a \<Rightarrow> 'a arr4" where
  "set4 (Arr4 a b c d) i v =
     (if i = 0 then Arr4 v b c d else if i = 1 then Arr4 a v c d
      else if i = 2 then Arr4 a b v d else Arr4 a b c v)"

fun list4 :: "'a arr4 \<Rightarrow> 'a list" where
  "list4 (Arr4 a b c d) = [a, b, c, d]"

subsection \<open>Errors, events, storage\<close>

datatype error =
    GameNotFound
  | GameFull
  | PlayerAlreadyJoined
  | PlayerNotInGame
  | GameAlreadyStarted
  | GameNotReady
  | GameNotStarted
  | PlayerAlreadyDead
  | NotWerewolf
  | CannotAttackSelf
  | Panic nat

datatype event =
    GameCreated u256 address
  | PlayerJoined u256 address
  | GameStarted u256
  | PlayerAttacked u256 address address

record game =
  creator :: address
  players :: "address arr4"
  encryptedRoles :: "euint8 arr4"
  roles :: "u8 arr4"
  alive :: "bool arr4"
  playerCount :: u8
  started :: bool

text \<open>A storage slot never written holds zeros: the value of \<^verbatim>\<open>_games[id]\<close> for a fresh id.\<close>

definition emptyGame :: game where
  "emptyGame = \<lparr> creator = 0, players = Arr4 0 0 0 0, encryptedRoles = Arr4 0 0 0 0,
     roles = Arr4 0 0 0 0, alive = Arr4 False False False False, playerCount = 0,
     started = False \<rparr>"

text \<open>
  The contract's storage (\<^verbatim>\<open>_nextGameId\<close>, \<^verbatim>\<open>_games\<close>, \<^verbatim>\<open>_playerIndex\<close>; Solidity
  mappings are total, with zero as the default) together with the part of the outside world
  that \<^verbatim>\<open>startGame\<close> writes: the state \<open>fhe\<close> of the confidential value engine, of a type
  the contract knows nothing about, and the engine's access control list \<open>acl\<close>, the set
  of (handle, grantee) pairs granted so far (written by \<open>FHE_allow\<close> below).
\<close>

record 'e state =
  nextGameId :: u256
  games :: "u256 \<Rightarrow> game"
  playerIndex :: "u256 \<Rightarrow> address \<Rightarrow> u8"
  fhe :: 'e
  acl :: "(euint8 \<times> address) set"

text \<open>
  What the contract takes from its environment: its own address (\<^verbatim>\<open>address(this)\<close>), the
  hash \<^verbatim>\<open>keccak256(abi.encode(...))\<close> (the ABI encoding of static values is the list of
  their 32-byte words, an address zero-extended), and \<^verbatim>\<open>FHE.asEuint8\<close>, which maps the
  engine's state and a plaintext to a handle and the engine's next state.
\<close>

record 'e env =
  self :: address
  keccak256 :: "u256 list \<Rightarrow> u256"
  asEuint8 :: "'e \<Rightarrow> u8 \<Rightarrow> euint8 \<times> 'e"

record block =
  prevrandao :: u256
  timestamp :: u256

text \<open>
  Modelled from the spec: \<^verbatim>\<open>FHE.allow\<close> and \<^verbatim>\<open>FHE.allowThis\<close> of the third party's
  library \<^verbatim>\<open>@fhevm/solidity\<close>, which is not part of the repository. The spec gives the
  grant primitive as \<^verbatim>\<open>grantAccess(handle, granteeAddress)\<close>, "idempotent, additive only
  -- access is never revoked": a grant inserts a pair into the access control list, and
  \<^verbatim>\<open>allowThis\<close> grants to the contract's own address.
\<close>

definition FHE_allow :: "euint8 \<Rightarrow> address \<Rightarrow> 'e state \<Rightarrow> 'e state" where
  "FHE_allow h a s = s\<lparr> acl := insert (h, a) (acl s) \<rparr>"

definition FHE_allowThis :: "'e env \<Rightarrow> euint8 \<Rightarrow> 'e state \<Rightarrow> 'e state" where
  "FHE_allowThis env h s = FHE_allow h (self env) s"

definition setGame :: "u256 \<Rightarrow> game \<Rightarrow> 'e state \<Rightarrow> 'e state" where
  "setGame gameId g s = s\<lparr> games := (games s)(gameId := g) \<rparr>"

subsection \<open>Seating\<close>

text \<open>
  \<^verbatim>\<open>_addPlayer\<close>: the write to \<^verbatim>\<open>players[newIndex]\<close> is bounds-checked first, then the
  two checked \<^verbatim>\<open>uint8\<close> additions.
\<close>

definition addPlayer :: "u256 \<Rightarrow> address \<Rightarrow> 'e state \<Rightarrow> error + 'e state" where
  "addPlayer gameId player s =
     (let game = games s gameId; newIndex = playerCount game in
      if \<not> unat newIndex < 4 then Inl (Panic 50)
      else if playerCount game = 255 then Inl (Panic 17)
      else if newIndex = 255 then Inl (Panic 17)
      else Inr ((setGame gameId
                  (game\<lparr> players := set4 (players game) (unat newIndex) player,
                         playerCount := playerCount game + 1,
                         alive := set4 (alive game) (unat newIndex) True \<rparr>) s)
                \<lparr> playerIndex := (playerIndex s)
                     (gameId := (playerIndex s gameId)(player := newIndex + 1)) \<rparr>))"

definition createGame :: "address \<Rightarrow> 'e state \<Rightarrow> error + (u256 \<times> event list \<times> 'e state)" where
  "createGame sender s =
     (let gameId = nextGameId s in
      if nextGameId s = - 1 then Inl (Panic 17)
      else
        let s1 = s\<lparr> nextGameId := nextGameId s + 1 \<rparr>;
            s2 = setGame gameId ((games s1 gameId)\<lparr> creator := sender \<rparr>) s1
        in case addPlayer gameId sender s2 of
             Inl e \<Rightarrow> Inl e
           | Inr s3 \<Rightarrow> Inr (gameId, [GameCreated gameId sender], s3))"

definition joinGame :: "address \<Rightarrow> u256 \<Rightarrow> 'e state \<Rightarrow> error + (event list \<times> 'e state)" where
  "joinGame sender gameId s =
     (let game = games s gameId in
      if creator game = 0 then Inl GameNotFound
      else if started game then Inl GameAlreadyStarted
      else if playerCount game \<ge> 4 then Inl GameFull
      else if playerIndex s gameId sender \<noteq> 0 then Inl PlayerAlreadyJoined
      else case addPlayer gameId sender s of
             Inl e \<Rightarrow> Inl e
           | Inr s1 \<Rightarrow> Inr ([PlayerJoined gameId sender], s1))"

subsection \<open>Role assignment\<close>

text \<open>
  The shuffle loop of \<^verbatim>\<open>startGame\<close>, \<^verbatim>\<open>for (uint256 i = 3; i > 0; i--)\<close>, over the memory
  array \<open>rs\<close>. The checked \<^verbatim>\<open>i + 1\<close>, the division by it and the three array accesses can
  panic for an arbitrary \<open>i\<close>; \<open>startGame\<close> enters the loop at \<open>i = 3\<close>.
\<close>

function shuffle_loop ::
  "(u256 list \<Rightarrow> u256) \<Rightarrow> u256 \<Rightarrow> u256 \<Rightarrow> u8 arr4 \<Rightarrow> error + u8 arr4" where
  "shuffle_loop hash i randomSeed rs =
     (if i > 0 then
        (if i = - 1 then Inl (Panic 17)
         else
           let swapIndex = randomSeed mod (i + 1);
               randomSeed' = hash [randomSeed, i]
           in if \<not> unat i < 4 then Inl (Panic 50)
              else if \<not> unat swapIndex < 4 then Inl (Panic 50)
              else
                let temp = get4 rs (unat i);
                    rs1 = set4 rs (unat i) (get4 rs (unat swapIndex));
                    rs2 = set4 rs1 (unat swapIndex) temp
                in shuffle_loop hash (i - 1) randomSeed' rs2)
      else Inr rs)"
  by pat_completeness auto
termination
  by (relation "measure (\<lambda>(hash, i, randomSeed, rs). unat i)")
     (auto simp: unat_minus_one word_greater_zero_iff unat_gt_0)

declare shuffle_loop.simps [simp del]

text \<open>
  One pass of the body of the second loop, \<^verbatim>\<open>for (uint256 i = 0; i < 4; i++)\<close>: the role
  is stored, encrypted, and the two grants are made on the stored handle.
\<close>

definition assign_seat :: "'e env \<Rightarrow> u256 \<Rightarrow> u8 arr4 \<Rightarrow> nat \<Rightarrow> 'e state \<Rightarrow> 'e state" where
  "assign_seat env gameId rs i s =
     (let assignedRole = get4 rs i;
          s1 = setGame gameId ((games s gameId)\<lparr> roles := set4 (roles (games s gameId)) i assignedRole \<rparr>) s;
          (h, e') = asEuint8 env (fhe s1) assignedRole;
          s2 = setGame gameId ((games s1 gameId)
                 \<lparr> encryptedRoles := set4 (encryptedRoles (games s1 gameId)) i h \<rparr>) (s1\<lparr> fhe := e' \<rparr>);
          s3 = FHE_allowThis env (get4 (encryptedRoles (games s2 gameId)) i) s2;
          s4 = FHE_allow (get4 (encryptedRoles (games s3 gameId)) i)
                 (get4 (players (games s3 gameId)) i) s3
      in setGame gameId ((games s4 gameId)\<lparr> alive := set4 (alive (games s4 gameId)) i True \<rparr>) s4)"

function assign_loop :: "'e env \<Rightarrow> u256 \<Rightarrow> u8 arr4 \<Rightarrow> nat \<Rightarrow> 'e state \<Rightarrow> 'e state" where
  "assign_loop env gameId rs i s =
     (if i < 4 then assign_loop env gameId rs (i + 1) (assign_seat env gameId rs i s) else s)"
  by pat_completeness auto
termination
  by (relation "measure (\<lambda>(env, gameId, rs, i, s). 4 - i)") auto

declare assign_loop.simps [simp del]

definition startGame ::
  "'e env \<Rightarrow> block \<Rightarrow> address \<Rightarrow> u256 \<Rightarrow> 'e state \<Rightarrow> error + (event list \<times> 'e state)" where
  "startGame env blk sender gameId s =
     (let game = games s gameId in
      if creator game = 0 then Inl GameNotFound
      else if started game then Inl GameAlreadyStarted
      else if playerIndex s gameId sender = 0 then Inl PlayerNotInGame
      else if playerCount game \<noteq> 4 then Inl GameNotReady
      else
        let randomSeed = keccak256 env [prevrandao blk, timestamp blk, ucast sender, gameId]
        in case shuffle_loop (keccak256 env) 3 randomSeed (Arr4 1 1 2 3) of
             Inl e \<Rightarrow> Inl e
           | Inr rs \<Rightarrow>
               let s1 = assign_loop env gameId rs 0 s
               in Inr ([GameStarted gameId],
                       setGame gameId ((games s1 gameId)\<lparr> started := True \<rparr>) s1))"

subsection \<open>Attack\<close>

definition attack :: "address \<Rightarrow> u256 \<Rightarrow> address \<Rightarrow> 'e state \<Rightarrow> error + (event list \<times> 'e state)" where
  "attack sender gameId target s =
     (let game = games s gameId in
      if creator game = 0 then Inl GameNotFound
      else if \<not> started game then Inl GameNotStarted
      else
        let attackerIndex = playerIndex s gameId sender in
        if attackerIndex = 0 then Inl PlayerNotInGame
        else
          let attackerPosition = attackerIndex - 1 in
          if \<not> unat attackerPosition < 4 then Inl (Panic 50)
          else if \<not> get4 (alive game) (unat attackerPosition) then Inl PlayerAlreadyDead
          else if get4 (roles game) (unat attackerPosition) \<noteq> 2 then Inl NotWerewolf
          else
            let targetIndex = playerIndex s gameId target in
            if targetIndex = 0 then Inl PlayerNotInGame
            else
              let targetPosition = targetIndex - 1 in
              if \<not> unat targetPosition < 4 then Inl (Panic 50)
              else if \<not> get4 (alive game) (unat targetPosition) then Inl PlayerAlreadyDead
              else if targetPosition = attackerPosition then Inl CannotAttackSelf
              else Inr ([PlayerAttacked gameId sender target],
                        setGame gameId
                          (game\<lparr> alive := set4 (alive game) (unat targetPosition) False \<rparr>) s))"

subsection \<open>Queries\<close>

definition getGameDetails ::
  "u256 \<Rightarrow> 'e state \<Rightarrow> error + (address \<times> address arr4 \<times> bool \<times> bool arr4 \<times> u8)" where
  "getGameDetails gameId s =
     (let game = games s gameId in
      if creator game = 0 then Inl GameNotFound
      else Inr (creator game, players game, started game, alive game, playerCount game))"

definition getPlayerEncryptedRole :: "u256 \<Rightarrow> address \<Rightarrow> 'e state \<Rightarrow> error + euint8" where
  "getPlayerEncryptedRole gameId player s =
     (let game = games s gameId in
      if creator game = 0 then Inl GameNotFound
      else if \<not> started game then Inl GameNotStarted
      else
        let indexPlusOne = playerIndex s gameId player in
        if indexPlusOne = 0 then Inl PlayerNotInGame
        else if \<not> unat (indexPlusOne - 1) < 4 then Inl (Panic 50)
        else Inr (get4 (encryptedRoles game) (unat (indexPlusOne - 1))))"

definition getNextGameId :: "'e state \<Rightarrow> error + u256" where
  "getNextGameId s = Inr (nextGameId s)"

text \<open>The counting loop of \<^verbatim>\<open>getAlivePlayerCount\<close>, with its checked \<^verbatim>\<open>uint8\<close> increment.\<close>

function alive_loop :: "game \<Rightarrow> nat \<Rightarrow> u8 \<Rightarrow> error + u8" where
  "alive_loop game i aliveCount =
     (if i < 4 then
        (if get4 (players game) i \<noteq> 0 \<and> get4 (alive game) i then
           (if aliveCount = 255 then Inl (Panic 17)
            else alive_loop game (i + 1) (aliveCount + 1))
         else alive_loop game (i + 1) aliveCount)
      else Inr aliveCount)"
  by pat_completeness auto
termination
  by (relation "measure (\<lambda>(game, i, aliveCount). 4 - i)") auto

declare alive_loop.simps [simp del]

definition getAlivePlayerCount :: "u256 \<Rightarrow> 'e state \<Rightarrow> error + u8" where
  "getAlivePlayerCount gameId s =
     (let game = games s gameId in
      if creator game = 0 then Inl GameNotFound
      else alive_loop game 0 0)"

definition getPlayerStatus :: "u256 \<Rightarrow> address \<Rightarrow> 'e state \<Rightarrow> error + bool" where
  "getPlayerStatus gameId player s =
     (let game = games s gameId in
      if creator game = 0 then Inl GameNotFound
      else
        let indexPlusOne = playerIndex s gameId player in
        if indexPlusOne = 0 then Inl PlayerNotInGame
        else if \<not> unat (indexPlusOne - 1) < 4 then Inl (Panic 50)
        else Inr (get4 (alive game) (unat (indexPlusOne - 1))))"

subsection \<open>Transactions\<close>

datatype call =
    CreateGame
  | JoinGame u256
  | StartGame u256
  | Attack u256 address
  | GetGameDetails u256
  | GetPlayerEncryptedRole u256 address
  | GetNextGameId
  | GetAlivePlayerCount u256
  | GetPlayerStatus u256 address

datatype retval =
    RNone
  | RUint256 u256
  | RDetails address "address arr4" bool "bool arr4" u8
  | RHandle euint8
  | RUint8 u8
  | RBool bool

text \<open>
  A mutating call that reverts leaves the storage as it was and emits nothing; a
  \<^verbatim>\<open>view\<close> function has no storage to return. \<open>commit\<close> and \<open>view\<close> are these two
  rules of the EVM.
\<close>

definition commit ::
  "'e state \<Rightarrow> error + (retval \<times> event list \<times> 'e state) \<Rightarrow> (error + retval \<times> event list) \<times> 'e state" where
  "commit s r = (case r of Inl e \<Rightarrow> (Inl e, s) | Inr (v, evs, s') \<Rightarrow> (Inr (v, evs), s'))"

definition view ::
  "'e state \<Rightarrow> ('a \<Rightarrow> retval) \<Rightarrow> error + 'a \<Rightarrow> (error + retval \<times> event list) \<times> 'e state" where
  "view s f r = (case r of Inl e \<Rightarrow> (Inl e, s) | Inr v \<Rightarrow> (Inr (f v, []), s))"

fun exec ::
  "'e env \<Rightarrow> block \<Rightarrow> address \<Rightarrow> call \<Rightarrow> 'e state \<Rightarrow> (error + retval \<times> event list) \<times> 'e state" where
  "exec env blk sender CreateGame s =
     commit s (map_sum id (\<lambda>(gameId, evs, s'). (RUint256 gameId, evs, s')) (createGame sender s))"
| "exec env blk sender (JoinGame gameId) s =
     commit s (map_sum id (\<lambda>(evs, s'). (RNone, evs, s')) (joinGame sender gameId s))"
| "exec env blk sender (StartGame gameId) s =
     commit s (map_sum id (\<lambda>(evs, s'). (RNone, evs, s')) (startGame env blk sender gameId s))"
| "exec env blk sender (Attack gameId target) s =
     commit s (map_sum id (\<lambda>(evs, s'). (RNone, evs, s')) (attack sender gameId target s))"
| "exec env blk sender (GetGameDetails gameId) s =
     view s (\<lambda>(c, ps, st, al, n). RDetails c ps st al n) (getGameDetails gameId s)"
| "exec env blk sender (GetPlayerEncryptedRole gameId player) s =
     view s RHandle (getPlayerEncryptedRole gameId player s)"
| "exec env blk sender GetNextGameId s = view s RUint256 (getNextGameId s)"
| "exec env blk sender (GetAlivePlayerCount gameId) s =
     view s RUint8 (getAlivePlayerCount gameId s)"
| "exec env blk sender (GetPlayerStatus gameId player) s =
     view s RBool (getPlayerStatus gameId player s)"

text \<open>A transaction: the block it is mined in, its sender, the call.\<close>

type_synonym tx = "block \<times> address \<times> call"

fun run :: "'e env \<Rightarrow> 'e state \<Rightarrow> tx list \<Rightarrow> 'e state" where
  "run env s [] = s"
| "run env s ((blk, sender, c) # txs) = run env (snd (exec env blk sender c s)) txs"

text \<open>
  The storage of a freshly deployed contract is all zeros; the engine may be in any state.
\<close>

definition deployed :: "'e state \<Rightarrow> bool" where
  "deployed s \<longleftrightarrow> nextGameId s = 0 \<and> games s = (\<lambda>_. emptyGame) \<and> playerIndex s = (\<lambda>_ _. 0)"

text \<open>
  The states the contract can be in: those a sequence of transactions leads to from a
  deployment. A transaction is signed, so its sender is never the zero address.
\<close>

inductive reachable :: "'e env \<Rightarrow> 'e state \<Rightarrow> bool" for env :: "'e env" where
  reachable_deployed: "deployed s \<Longrightarrow> reachable env s"
| reachable_exec: "reachable env s \<Longrightarrow> sender \<noteq> 0 \<Longrightarrow> reachable env (snd (exec env blk sender c s))"

section \<open>Reference definitions\<close>

subsection \<open>The shuffle as the specification words it\<close>

text \<open>
  Role codes: 1 Villager, 2 Werewolf, 3 Seer. The specification's Fisher-Yates shuffle
  starts from the canonical order, and for the index \<open>i\<close> from 3 down to 1 picks
  \<open>swapIndex = seed mod (i + 1)\<close>, swaps the roles at \<open>i\<close> and \<open>swapIndex\<close>, then
  re-derives the seed by hashing it together with \<open>i\<close>. It is written here over lists and
  natural numbers, independently of the loop of the contract.
\<close>

definition Villager :: u8 where "Villager = 1"
definition Werewolf :: u8 where "Werewolf = 2"
definition Seer :: u8 where "Seer = 3"

definition canonical :: "u8 list" where
  "canonical = [Villager, Villager, Werewolf, Seer]"

definition swap_at :: "'a list \<Rightarrow> nat \<Rightarrow> nat \<Rightarrow> 'a list" where
  "swap_at xs i j = xs[i := xs ! j, j := xs ! i]"

definition fisher_yates_step ::
  "(u256 list \<Rightarrow> u256) \<Rightarrow> nat \<Rightarrow> u256 \<times> u8 list \<Rightarrow> u256 \<times> u8 list" where
  "fisher_yates_step hash i st =
     (let seed = fst st;
          swapIndex = unat seed mod (i + 1)
      in (hash [seed, of_nat i], swap_at (snd st) i swapIndex))"

definition fisher_yates :: "(u256 list \<Rightarrow> u256) \<Rightarrow> u256 \<Rightarrow> u8 list" where
  "fisher_yates hash seed = snd (fold (fisher_yates_step hash) [3, 2, 1] (seed, canonical))"

definition spec_seed :: "'e env \<Rightarrow> block \<Rightarrow> address \<Rightarrow> u256 \<Rightarrow> u256" where
  "spec_seed env blk caller gameId =
     keccak256 env [prevrandao blk, timestamp blk, ucast caller, gameId]"

subsection \<open>Closed forms of the loops\<close>

text \<open>
  What the two loops of \<^verbatim>\<open>startGame\<close> compute, written without recursion: the three
  swaps of the shuffle, the four handles, the eight grants and the storage after a
  successful start. The lemmas \<open>shuffle_loop_3\<close>, \<open>assign_loop_0\<close> and \<open>startGame_eq\<close>
  below prove that the loops of the contract compute exactly these.
\<close>

definition swap4 :: "'a arr4 \<Rightarrow> nat \<Rightarrow> nat \<Rightarrow> 'a arr4" where
  "swap4 a i j = set4 (set4 a i (get4 a j)) j (get4 a i)"

definition shuffled :: "(u256 list \<Rightarrow> u256) \<Rightarrow> u256 \<Rightarrow> u8 arr4" where
  "shuffled h seed =
     swap4 (swap4 (swap4 (Arr4 1 1 2 3) 3 (unat (seed mod 4))) 2 (unat (h [seed, 3] mod 3)))
       1 (unat (h [h [seed, 3], 2] mod 2))"

text \<open>The four handles that the second loop obtains, and the engine's state after them.\<close>

definition sealed :: "'e env \<Rightarrow> 'e \<Rightarrow> u8 arr4 \<Rightarrow> euint8 arr4 \<times> 'e" where
  "sealed env e rs =
     (let r0 = asEuint8 env e (get4 rs 0);
          r1 = asEuint8 env (snd r0) (get4 rs 1);
          r2 = asEuint8 env (snd r1) (get4 rs 2);
          r3 = asEuint8 env (snd r2) (get4 rs 3)
      in (Arr4 (fst r0) (fst r1) (fst r2) (fst r3), snd r3))"

definition grants :: "address \<Rightarrow> euint8 arr4 \<Rightarrow> address arr4 \<Rightarrow> (euint8 \<times> address) set" where
  "grants me hs ps = (\<Union>i\<in>{0, 1, 2, 3}. {(get4 hs i, me), (get4 hs i, get4 ps i)})"

definition startedState :: "'e env \<Rightarrow> block \<Rightarrow> address \<Rightarrow> u256 \<Rightarrow> 'e state \<Rightarrow> 'e state" where
  "startedState env blk sender gameId s =
     (let g = games s gameId;
          rs = shuffled (keccak256 env) (spec_seed env blk sender gameId);
          hs = sealed env (fhe s) rs
      in s\<lparr> games := (games s)(gameId := g\<lparr> roles := rs, encryptedRoles := fst hs,
               alive := Arr4 True True True True, started := True \<rparr>),
             fhe := snd hs,
             acl := acl s \<union> grants (self env) (fst hs) (players g) \<rparr>)"

subsection \<open>Well-formed storage\<close>

text \<open>
  The invariant of the storage. Per game: at most four seats are filled; the index of a
  seated address is its seat plus one, within the filled seats, and the seat holds that
  address, which is not zero; every filled seat holds a non-zero address. A started game
  is full, its roles are a permutation of {1, 1, 2, 3} and its Werewolf seat is alive. The
  games that exist are those below the counter, and a game that does not exist is all
  zeros.
\<close>

definition seats_ok :: "game \<Rightarrow> (address \<Rightarrow> u8) \<Rightarrow> bool" where
  "seats_ok g idx \<longleftrightarrow>
     unat (playerCount g) \<le> 4
     \<and> (\<forall>a. idx a \<noteq> 0 \<longrightarrow>
            a \<noteq> 0 \<and> unat (idx a) \<le> unat (playerCount g) \<and> get4 (players g) (unat (idx a) - 1) = a)
     \<and> (\<forall>i < unat (playerCount g). get4 (players g) i \<noteq> 0)"

definition roles_ok :: "game \<Rightarrow> bool" where
  "roles_ok g \<longleftrightarrow>
     (started g \<longrightarrow>
        playerCount g = 4 \<and> mset (list4 (roles g)) = {#1, 1, 2, 3#}
        \<and> (\<forall>i < 4. get4 (roles g) i = 2 \<longrightarrow> get4 (alive g) i))"

definition registry_ok :: "'e state \<Rightarrow> u256 \<Rightarrow> bool" where
  "registry_ok s gameId \<longleftrightarrow>
     (creator (games s gameId) \<noteq> 0 \<longleftrightarrow> gameId < nextGameId s)
     \<and> (creator (games s gameId) = 0 \<longrightarrow>
           games s gameId = emptyGame \<and> playerIndex s gameId = (\<lambda>_. 0))"

definition wf_state :: "'e state \<Rightarrow> bool" where
  "wf_state s \<longleftrightarrow>
     (\<forall>gameId. seats_ok (games s gameId) (playerIndex s gameId)
        \<and> roles_ok (games s gameId) \<and> registry_ok s gameId)"

subsection \<open>Post-states of the successful operations\<close>

text \<open>
  The storage after a successful \<^verbatim>\<open>createGame\<close> (on a fresh slot), \<^verbatim>\<open>joinGame\<close> and
  \<^verbatim>\<open>attack\<close>; the lemmas \<open>createGame_eq\<close>, \<open>joinGame_eq\<close> and \<open>attack_eq\<close> relate them
  to the operations.
\<close>

definition createdState :: "address \<Rightarrow> 'e state \<Rightarrow> 'e state" where
  "createdState sender s =
     s\<lparr> nextGameId := nextGameId s + 1,
        games := (games s)(nextGameId s := emptyGame\<lparr> creator := sender,
           players := Arr4 sender 0 0 0, alive := Arr4 True False False False, playerCount := 1 \<rparr>),
        playerIndex := (playerIndex s)(nextGameId s := (\<lambda>_. 0)(sender := 1)) \<rparr>"

definition joinedState :: "address \<Rightarrow> u256 \<Rightarrow> 'e state \<Rightarrow> 'e state" where
  "joinedState sender gameId s =
     (let g = games s gameId in
      s\<lparr> games := (games s)(gameId := g\<lparr> players := set4 (players g) (unat (playerCount g)) sender,
                playerCount := playerCount g + 1,
                alive := set4 (alive g) (unat (playerCount g)) True \<rparr>),
         playerIndex := (playerIndex s)(gameId := (playerIndex s gameId)(sender := playerCount g + 1)) \<rparr>)"

definition attackedState :: "u256 \<Rightarrow> nat \<Rightarrow> 'e state \<Rightarrow> 'e state" where
  "attackedState gameId seat s =
     s\<lparr> games := (games s)(gameId := (games s gameId)\<lparr> alive := set4 (alive (games s gameId)) seat False \<rparr>) \<rparr>"

text \<open>The seat of an address, as an explicit option instead of the "index + 1" encoding.\<close>

definition seatOf :: "'e state \<Rightarrow> u256 \<Rightarrow> address \<Rightarrow> nat option" where
  "seatOf s gameId a =
     (if playerIndex s gameId a = 0 then None else Some (unat (playerIndex s gameId a) - 1))"

subsection \<open>Counting the living\<close>

text \<open>
  What the loop of \<^verbatim>\<open>getAlivePlayerCount\<close> adds up: one for every seat that is occupied
  and alive.
\<close>

definition seatAlive :: "game \<Rightarrow> nat \<Rightarrow> nat" where
  "seatAlive g i = (if get4 (players g) i \<noteq> 0 \<and> get4 (alive g) i then 1 else 0)"

definition aliveSeats :: "game \<Rightarrow> nat" where
  "aliveSeats g = seatAlive g 0 + seatAlive g 1 + seatAlive g 2 + seatAlive g 3"

subsection \<open>The read-only calls\<close>

fun isQuery :: "call \<Rightarrow> bool" where
  "isQuery (GetGameDetails gameId) = True"
| "isQuery (GetPlayerEncryptedRole gameId player) = True"
| "isQuery GetNextGameId = True"
| "isQuery (GetAlivePlayerCount gameId) = True"
| "isQuery (GetPlayerStatus gameId player) = True"
| "isQuery c = False"

subsection \<open>Counting creations\<close>

text \<open>
  The number of successful \<^verbatim>\<open>createGame\<close> transactions of a history, and the storage
  after one address has created the games below \<open>k\<close> and nothing else has happened.
\<close>

fun creations :: "'e env \<Rightarrow> 'e state \<Rightarrow> tx list \<Rightarrow> nat" where
  "creations env s [] = 0"
| "creations env s ((blk, sender, c) # txs) =
     (if c = CreateGame \<and> \<not> isl (fst (exec env blk sender c s)) then 1 else 0)
       + creations env (snd (exec env blk sender c s)) txs"

definition soloGames :: "u256 \<Rightarrow> nat state" where
  "soloGames k =
     \<lparr> nextGameId = k,
       games = (\<lambda>g. if g < k
                     then emptyGame\<lparr> creator := 161, players := Arr4 161 0 0 0,
                            alive := Arr4 True False False False, playerCount := 1 \<rparr>
                     else emptyGame),
       playerIndex = (\<lambda>g. if g < k then (\<lambda>_. 0)(161 := 1) else (\<lambda>_. 0)),
       fhe = 0, acl = {} \<rparr>"

subsection \<open>A concrete game\<close>

text \<open>
  An environment and a short history on which the theorems below are evaluated: an engine
  that numbers its handles, a toy hash, four players who create and fill game 0, and the
  start of that game.
\<close>

definition env0 :: "nat env" where
  "env0 = \<lparr> self = 4096, keccak256 = (\<lambda>ws. 31 * sum_list ws + 7),
            asEuint8 = (\<lambda>n v. (of_nat n + 256, Suc n)) \<rparr>"

definition blk0 :: block where
  "blk0 = \<lparr> prevrandao = 11, timestamp = 1700000000 \<rparr>"

definition genesis :: "nat state" where
  "genesis = \<lparr> nextGameId = 0, games = (\<lambda>_. emptyGame), playerIndex = (\<lambda>_ _. 0),
               fhe = 0, acl = {} \<rparr>"

definition lobby :: "nat state" where
  "lobby = run env0 genesis
     [(blk0, 161, CreateGame), (blk0, 162, JoinGame 0), (blk0, 163, JoinGame 0),
      (blk0, 164, JoinGame 0)]"

definition night :: "nat state" where
  "night = run env0 lobby [(blk0, 162, StartGame 0)]"

text \<open>
  The same history with an engine whose handle is a function of the plaintext alone, as
  the signature \<^verbatim>\<open>encrypt(value) -> handle\<close> of the specification reads.
\<close>

definition env1 :: "unit env" where
  "env1 = \<lparr> self = 4096, keccak256 = (\<lambda>ws. 31 * sum_list ws + 7),
            asEuint8 = (\<lambda>e v. (ucast v, e)) \<rparr>"

definition genesis1 :: "unit state" where
  "genesis1 = \<lparr> nextGameId = 0, games = (\<lambda>_. emptyGame), playerIndex = (\<lambda>_ _. 0),
                fhe = (), acl = {} \<rparr>"

definition lobby1 :: "unit state" where
  "lobby1 = run env1 genesis1
     [(blk0, 161, CreateGame), (blk0, 162, JoinGame 0), (blk0, 163, JoinGame 0),
      (blk0, 164, JoinGame 0)]"

definition night1 :: "unit state" where
  "night1 = run env1 lobby1 [(blk0, 162, StartGame 0)]"

text \<open>Four more players then create, fill and start game 1.\<close>

definition dusk1 :: "unit state" where
  "dusk1 = run env1 night1
     [(blk0, 165, CreateGame), (blk0, 166, JoinGame 1), (blk0, 167, JoinGame 1),
      (blk0, 168, JoinGame 1), (blk0, 165, StartGame 1)]"

section \<open>Properties\<close>

subsection \<open>Arrays of four cells\<close>

lemma lt4_cases: "i < (4::nat) \<Longrightarrow> i = 0 \<or> i = 1 \<or> i = 2 \<or> i = 3"
  by arith

lemma get4_set4: "i < 4 \<Longrightarrow> j < 4 \<Longrightarrow> get4 (set4 a i v) j = (if i = j then v else get4 a j)"
  by (cases a) auto

lemma get4_set4_same [simp]: "i < 4 \<Longrightarrow> get4 (set4 a i v) i = v"
  by (simp add: get4_set4)

lemma list4_nth: "i < 4 \<Longrightarrow> list4 a ! i = get4 a i"
  by (cases a) (auto dest!: lt4_cases)

lemma length_list4 [simp]: "length (list4 a) = 4"
  by (cases a) simp

lemma list4_set4: "i < 4 \<Longrightarrow> list4 (set4 a i v) = (list4 a)[i := v]"
  by (cases a) (auto dest!: lt4_cases)

lemma set4_all: "set4 (set4 (set4 (set4 a 0 w) (Suc 0) x) 2 y) 3 z = Arr4 w x y z"
  by (cases a) simp

lemma arr4_eta: "Arr4 (get4 a 0) (get4 a (Suc 0)) (get4 a 2) (get4 a 3) = a"
  by (cases a) simp

lemma list4_swap4: "i < 4 \<Longrightarrow> j < 4 \<Longrightarrow> list4 (swap4 a i j) = swap_at (list4 a) i j"
  by (simp add: swap4_def swap_at_def list4_set4 list4_nth)

lemma mset_swap_at: "i < length xs \<Longrightarrow> j < length xs \<Longrightarrow> mset (swap_at xs i j) = mset xs"
  unfolding swap_at_def by (rule mset_swap)

lemma length_swap_at [simp]: "length (swap_at xs i j) = length xs"
  by (simp add: swap_at_def)

subsection \<open>The loops of startGame\<close>

lemma unat_mod_lt4:
  "unat (x mod (4::u256)) < 4" "unat (x mod (3::u256)) < 4" "unat (x mod (2::u256)) < 4"
proof -
  have "unat x mod 3 < 3" "unat x mod 2 < 2" by simp_all
  then show "unat (x mod (4::u256)) < 4" "unat (x mod (3::u256)) < 4" "unat (x mod (2::u256)) < 4"
    by (simp_all add: unat_mod_distrib)
qed

lemma shuffle_iter:
  assumes "i = 1 \<or> i = 2 \<or> i = 3"
  shows "shuffle_loop h i seed rs =
     shuffle_loop h (i - 1) (h [seed, i])
       (set4 (set4 rs (unat i) (get4 rs (unat (seed mod (i + 1))))) (unat (seed mod (i + 1))) (get4 rs (unat i)))"
  using assms unat_mod_lt4[of seed]
  by (subst shuffle_loop.simps) (auto simp: Let_def)

lemma shuffle_0: "shuffle_loop h 0 seed rs = Inr rs"
  by (subst shuffle_loop.simps) simp

lemma shuffle_loop_3:
  "shuffle_loop h 3 seed rs =
     Inr (swap4 (swap4 (swap4 rs 3 (unat (seed mod 4))) 2 (unat (h [seed, 3] mod 3)))
            1 (unat (h [h [seed, 3], 2] mod 2)))"
  by (simp add: shuffle_iter shuffle_0 swap4_def)

lemma assign_seat_eq:
  "i < 4 \<Longrightarrow> assign_seat env gameId rs i s =
     (let g = games s gameId; r = asEuint8 env (fhe s) (get4 rs i) in
      s\<lparr> games := (games s)(gameId := g\<lparr> roles := set4 (roles g) i (get4 rs i),
             encryptedRoles := set4 (encryptedRoles g) i (fst r),
             alive := set4 (alive g) i True \<rparr>),
         fhe := snd r,
         acl := insert (fst r, get4 (players g) i) (insert (fst r, self env) (acl s)) \<rparr>)"
  by (simp add: assign_seat_def setGame_def FHE_allow_def FHE_allowThis_def Let_def split: prod.splits)

lemma assign_loop_step:
  "i < 4 \<Longrightarrow> assign_loop env gameId rs i s =
     assign_loop env gameId rs (Suc i) (assign_seat env gameId rs i s)"
  by (subst assign_loop.simps) simp

lemma assign_loop_done: "\<not> i < 4 \<Longrightarrow> assign_loop env gameId rs i s = s"
  by (subst assign_loop.simps) simp

lemma assign_loop_unroll:
  "assign_loop env gameId rs 0 s =
     assign_seat env gameId rs 3 (assign_seat env gameId rs 2
       (assign_seat env gameId rs 1 (assign_seat env gameId rs 0 s)))"
  by (simp add: assign_loop_step assign_loop_done eval_nat_numeral)

lemma assign_loop_0:
  "assign_loop env gameId rs 0 s =
     (let g = games s gameId; hs = sealed env (fhe s) rs
      in s\<lparr> games := (games s)(gameId := g\<lparr> roles := rs, encryptedRoles := fst hs,
               alive := Arr4 True True True True \<rparr>),
             fhe := snd hs,
             acl := acl s \<union> grants (self env) (fst hs) (players g) \<rparr>)"
  unfolding assign_loop_unroll
  by (rule state.equality)
     (auto simp: assign_seat_eq Let_def sealed_def grants_def set4_all arr4_eta)

lemma startGame_eq:
  "startGame env blk sender gameId s =
     (if creator (games s gameId) = 0 then Inl GameNotFound
      else if started (games s gameId) then Inl GameAlreadyStarted
      else if playerIndex s gameId sender = 0 then Inl PlayerNotInGame
      else if playerCount (games s gameId) \<noteq> 4 then Inl GameNotReady
      else Inr ([GameStarted gameId], startedState env blk sender gameId s))"
  by (simp add: startGame_def shuffle_loop_3 assign_loop_0 startedState_def shuffled_def spec_seed_def
      setGame_def Let_def)

lemma mset_swap4: "i < 4 \<Longrightarrow> j < 4 \<Longrightarrow> mset (list4 (swap4 a i j)) = mset (list4 a)"
  by (simp add: list4_swap4 mset_swap_at)

lemma mset_shuffled: "mset (list4 (shuffled h seed)) = {#1, 1, 2, 3#}"
  by (simp add: shuffled_def mset_swap4 unat_mod_lt4)

lemma Suc_Suc_0: "Suc (Suc 0) = 2"
  by simp

lemma list4_shuffled: "list4 (shuffled h seed) = fisher_yates h seed"
  by (simp add: shuffled_def fisher_yates_def fisher_yates_step_def canonical_def Villager_def
      Werewolf_def Seer_def list4_swap4 unat_mod_lt4 unat_mod_distrib Let_def Suc_Suc_0)

lemma one_wolf:
  assumes "mset (list4 a) = {#1, 1, 2, 3#}"
  shows "\<exists>!i. i < 4 \<and> get4 a i = (2::u8)"
proof -
  obtain w x y z where a: "a = Arr4 w x y z" by (cases a)
  have "count (mset (list4 a)) 2 = count {#1, 1, 2, 3::u8#} 2"
    using assms by simp
  then have c: "count (mset [w, x, y, z]) 2 = 1"
    by (simp add: a)
  show ?thesis
  proof (rule ex_ex1I)
    show "\<exists>i. i < 4 \<and> get4 a i = 2"
    proof (rule ccontr)
      assume "\<not> (\<exists>i. i < 4 \<and> get4 a i = 2)"
      then have "get4 a 0 \<noteq> 2" "get4 a 1 \<noteq> 2" "get4 a 2 \<noteq> 2" "get4 a 3 \<noteq> 2"
        by auto
      then show False using c by (simp add: a)
    qed
  next
    fix i j assume "i < 4 \<and> get4 a i = 2" "j < 4 \<and> get4 a j = 2"
    then show "i = j"
      using c by (auto simp: a dest!: lt4_cases split: if_splits)
  qed
qed

subsection \<open>The concrete game, evaluated\<close>

lemmas run_defs = genesis_def env0_def blk0_def createGame_def joinGame_def addPlayer_def
  setGame_def commit_def emptyGame_def Let_def word_le_nat_alt

lemma games_lobby:
  "games lobby 0 = \<lparr> creator = 161, players = Arr4 161 162 163 164,
     encryptedRoles = Arr4 0 0 0 0, roles = Arr4 0 0 0 0, alive = Arr4 True True True True,
     playerCount = 4, started = False \<rparr>"
  by (simp add: lobby_def run_defs)

lemma playerIndex_lobby:
  "playerIndex lobby 0 = (\<lambda>a. if a = 161 then 1 else if a = 162 then 2
     else if a = 163 then 3 else if a = 164 then 4 else 0)"
  by (auto simp add: lobby_def run_defs)

lemma startGame_lobby:
  "startGame env0 blk0 162 0 lobby = Inr ([GameStarted 0], startedState env0 blk0 162 0 lobby)"
  by (simp add: startGame_eq games_lobby playerIndex_lobby)

subsection \<open>Role composition\<close>

text \<open>
  Claim C1. After a successful \<open>startGame\<close> the four entries of \<open>roles\<close> are a permutation
  of the multiset {1, 1, 2, 3}, and exactly one seat holds the role code 2. This holds for
  every hash function, block and caller, hence for every seed: the shuffle loop entered at
  index 3 returns, for every seed, a permutation of the canonical array.
\<close>

theorem startGame_roles_permutation:
  assumes "startGame env blk sender gameId s = Inr (evs, s')"
  shows "mset (list4 (roles (games s' gameId))) = {#1, 1, 2, 3#}
       \<and> (\<exists>!i. i < 4 \<and> get4 (roles (games s' gameId)) i = 2)
       \<and> (\<forall>seed. \<exists>rs. shuffle_loop (keccak256 env) 3 seed (Arr4 1 1 2 3) = Inr rs
              \<and> mset (list4 rs) = {#1, 1, 2, 3#})"
proof -
  from assms have s': "s' = startedState env blk sender gameId s"
    by (simp add: startGame_eq split: if_splits)
  have r: "roles (games s' gameId) = shuffled (keccak256 env) (spec_seed env blk sender gameId)"
    by (simp add: s' startedState_def Let_def)
  have m: "mset (list4 (roles (games s' gameId))) = {#1, 1, 2, 3#}"
    by (simp only: r mset_shuffled)
  have "\<exists>rs. shuffle_loop (keccak256 env) 3 seed (Arr4 1 1 2 3) = Inr rs
      \<and> mset (list4 rs) = {#1, 1, 2, 3#}" for seed
    using mset_shuffled[of "keccak256 env" seed]
    by (simp add: shuffle_loop_3 shuffled_def)
  with m one_wolf[OF m] show ?thesis by blast
qed

theorem startGame_roles_permutation_witness:
  "\<exists>evs s'. startGame env0 blk0 162 0 lobby = Inr (evs, s')
     \<and> mset (list4 (roles (games s' 0))) = {#1, 1, 2, 3#}
     \<and> (\<exists>!i. i < 4 \<and> get4 (roles (games s' 0)) i = 2)"
  using startGame_roles_permutation[OF startGame_lobby] startGame_lobby by blast

subsection \<open>The shuffle refines the specification's algorithm\<close>

text \<open>
  Claim C3. The roles that \<open>startGame\<close> assigns are those of the specification's
  Fisher-Yates shuffle \<open>fisher_yates\<close>: canonical order, seed hashed from the block
  entropy, the timestamp, the caller and the game id, the index going from 3 down to 1,
  \<open>swapIndex = seed mod (i + 1)\<close>, and the seed re-derived by hashing it with the index.
  The contract re-derives the seed before it swaps and the specification after, which
  makes no difference; and the loop of the contract, entered at 3, equals the reference
  definition for every seed.
\<close>

theorem startGame_shuffle_refines_spec:
  assumes "startGame env blk sender gameId s = Inr (evs, s')"
  shows "list4 (roles (games s' gameId))
           = fisher_yates (keccak256 env) (spec_seed env blk sender gameId)
       \<and> (\<forall>seed. map_sum id list4 (shuffle_loop (keccak256 env) 3 seed (Arr4 1 1 2 3))
              = Inr (fisher_yates (keccak256 env) seed))"
proof -
  from assms have s': "s' = startedState env blk sender gameId s"
    by (simp add: startGame_eq split: if_splits)
  have "roles (games s' gameId) = shuffled (keccak256 env) (spec_seed env blk sender gameId)"
    by (simp add: s' startedState_def Let_def)
  moreover have "map_sum id list4 (shuffle_loop (keccak256 env) 3 seed (Arr4 1 1 2 3))
      = Inr (fisher_yates (keccak256 env) seed)" for seed
    using list4_shuffled[of "keccak256 env" seed]
    by (simp add: shuffle_loop_3 shuffled_def)
  ultimately show ?thesis
    by (simp add: list4_shuffled)
qed

theorem startGame_shuffle_refines_spec_witness:
  "\<exists>evs s'. startGame env0 blk0 162 0 lobby = Inr (evs, s')
     \<and> list4 (roles (games s' 0)) = fisher_yates (keccak256 env0) (spec_seed env0 blk0 162 0)
     \<and> fisher_yates (keccak256 env0) (spec_seed env0 blk0 162 0) = [3, 1, 1, 2]"
proof -
  have "fisher_yates (keccak256 env0) (spec_seed env0 blk0 162 0) = [3, 1, 1, 2]"
    by (simp add: fisher_yates_def fisher_yates_step_def spec_seed_def env0_def blk0_def
        canonical_def Villager_def Werewolf_def Seer_def swap_at_def Let_def Suc_Suc_0)
  with startGame_shuffle_refines_spec[OF startGame_lobby] startGame_lobby show ?thesis
    by blast
qed

subsection \<open>Closed forms of the operations and the invariant\<close>

lemma unat_u8_Suc: "unat (x::u8) < 4 \<Longrightarrow> unat (x + 1) = Suc (unat x)"
  by (simp add: unat_word_ariths)

lemma u8_ge4: "(4 \<le> (x::u8)) = (\<not> unat x < 4)"
  by (simp add: word_le_nat_alt not_less)

lemma seats_ok_add:
  assumes ok: "seats_ok g idx" and n: "unat (playerCount g) < 4" and new: "idx player = 0"
    and nz: "player \<noteq> 0"
  shows "seats_ok (g\<lparr> players := set4 (players g) (unat (playerCount g)) player,
                      playerCount := playerCount g + 1,
                      alive := set4 (alive g) (unat (playerCount g)) True \<rparr>)
                  (idx(player := playerCount g + 1))"
proof -
  let ?n = "unat (playerCount g)"
  have n1: "unat (playerCount g + 1) = Suc ?n" using n by (rule unat_u8_Suc)
  have old: "idx a \<noteq> 0 \<Longrightarrow> a \<noteq> 0 \<and> unat (idx a) \<le> ?n \<and> get4 (players g) (unat (idx a) - 1) = a" for a
    using ok by (simp add: seats_ok_def)
  have pos: "idx a \<noteq> 0 \<Longrightarrow> 0 < unat (idx a)" for a
    by (simp add: unat_gt_0)
  have filled: "i < ?n \<Longrightarrow> get4 (players g) i \<noteq> 0" for i
    using ok by (simp add: seats_ok_def)
  show ?thesis
    unfolding seats_ok_def
  proof (intro conjI allI impI)
    show "unat (playerCount (g\<lparr> players := set4 (players g) ?n player,
                      playerCount := playerCount g + 1,
                      alive := set4 (alive g) ?n True \<rparr>)) \<le> 4"
      using n n1 by simp
  next
    fix a assume a: "(idx(player := playerCount g + 1)) a \<noteq> 0"
    show "a \<noteq> 0" using a old[of a] nz by (auto split: if_splits)
    show "unat ((idx(player := playerCount g + 1)) a)
          \<le> unat (playerCount (g\<lparr> players := set4 (players g) ?n player,
                      playerCount := playerCount g + 1,
                      alive := set4 (alive g) ?n True \<rparr>))"
      using a old[of a] n1 by (auto split: if_splits)
    show "get4 (players (g\<lparr> players := set4 (players g) ?n player,
                      playerCount := playerCount g + 1,
                      alive := set4 (alive g) ?n True \<rparr>))
            (unat ((idx(player := playerCount g + 1)) a) - 1) = a"
    proof (cases "a = player")
      case True
      then show ?thesis using n n1 by simp
    next
      case False
      with a have "idx a \<noteq> 0" by simp
      from old[OF this] pos[OF this] n have "unat (idx a) - 1 < ?n" "get4 (players g) (unat (idx a) - 1) = a"
        by auto
      then show ?thesis using False n by (simp add: get4_set4)
    qed
  next
    fix i assume "i < unat (playerCount (g\<lparr> players := set4 (players g) ?n player,
                      playerCount := playerCount g + 1,
                      alive := set4 (alive g) ?n True \<rparr>))"
    then have "i < ?n \<or> i = ?n" using n1 by auto
    then show "get4 (players (g\<lparr> players := set4 (players g) ?n player,
                      playerCount := playerCount g + 1,
                      alive := set4 (alive g) ?n True \<rparr>)) i \<noteq> 0"
      using filled[of i] nz n by (auto simp: get4_set4)
  qed
qed

lemma u8_lt4_ne255: "unat (x::u8) < 4 \<Longrightarrow> x \<noteq> 255"
  by auto

lemma createGame_eq:
  assumes "games s (nextGameId s) = emptyGame" "playerIndex s (nextGameId s) = (\<lambda>_. 0)"
  shows "createGame sender s =
     (if nextGameId s = - 1 then Inl (Panic 17)
      else Inr (nextGameId s, [GameCreated (nextGameId s) sender], createdState sender s))"
  using assms
  by (auto simp: createGame_def addPlayer_def setGame_def createdState_def emptyGame_def Let_def
      intro!: state.equality)

lemma joinGame_eq:
  "joinGame sender gameId s =
     (if creator (games s gameId) = 0 then Inl GameNotFound
      else if started (games s gameId) then Inl GameAlreadyStarted
      else if \<not> unat (playerCount (games s gameId)) < 4 then Inl GameFull
      else if playerIndex s gameId sender \<noteq> 0 then Inl PlayerAlreadyJoined
      else Inr ([PlayerJoined gameId sender], joinedState sender gameId s))"
  by (auto simp: joinGame_def addPlayer_def setGame_def joinedState_def Let_def u8_ge4
      dest: u8_lt4_ne255)

lemma seats_ok_seat:
  assumes "seats_ok g idx" "idx a \<noteq> 0"
  shows "unat (idx a - 1) = unat (idx a) - 1" "unat (idx a) - 1 < 4"
    "unat (idx a) - 1 < unat (playerCount g)"
    "get4 (players g) (unat (idx a) - 1) = a" "a \<noteq> 0"
proof -
  have pos: "0 < unat (idx a)" using assms(2) by (simp add: unat_gt_0)
  show "unat (idx a - 1) = unat (idx a) - 1" using assms(2) by (simp add: unat_minus_one)
  from assms have le: "unat (idx a) \<le> unat (playerCount g)" "unat (playerCount g) \<le> 4"
    by (simp_all add: seats_ok_def)
  with pos show "unat (idx a) - 1 < 4" "unat (idx a) - 1 < unat (playerCount g)" by auto
  from assms show "get4 (players g) (unat (idx a) - 1) = a" "a \<noteq> 0"
    by (simp_all add: seats_ok_def)
qed

lemma u8_pred_eq: "x \<noteq> 0 \<Longrightarrow> y \<noteq> 0 \<Longrightarrow> (x - 1 = y - (1::u8)) = (unat x - 1 = unat y - 1)"
  by (metis diff_add_cancel unat_minus_one word_unat_eq_iff)

lemma attack_eq:
  assumes "seats_ok (games s gameId) (playerIndex s gameId)"
  shows "attack sender gameId target s =
     (if creator (games s gameId) = 0 then Inl GameNotFound
      else if \<not> started (games s gameId) then Inl GameNotStarted
      else case seatOf s gameId sender of
        None \<Rightarrow> Inl PlayerNotInGame
      | Some attackerSeat \<Rightarrow>
          if \<not> get4 (alive (games s gameId)) attackerSeat then Inl PlayerAlreadyDead
          else if get4 (roles (games s gameId)) attackerSeat \<noteq> 2 then Inl NotWerewolf
          else case seatOf s gameId target of
            None \<Rightarrow> Inl PlayerNotInGame
          | Some targetSeat \<Rightarrow>
              if \<not> get4 (alive (games s gameId)) targetSeat then Inl PlayerAlreadyDead
              else if targetSeat = attackerSeat then Inl CannotAttackSelf
              else Inr ([PlayerAttacked gameId sender target], attackedState gameId targetSeat s))"
  using seats_ok_seat(1,2)[OF assms, of sender] seats_ok_seat(1,2)[OF assms, of target]
  by (auto simp: attack_def seatOf_def attackedState_def setGame_def Let_def u8_pred_eq)

lemma u256_less_Suc:
  assumes "n \<noteq> (- 1 :: u256)"
  shows "(g < n + 1) = (g < n \<or> g = n)"
proof -
  from assms have "1 + n \<noteq> 0"
    by (metis add.commute add_eq_0_iff)
  then have "unat (1 + n) = Suc (unat n)" by (rule unatSuc)
  then have "unat (n + 1) = Suc (unat n)" by (simp add: add.commute)
  then show ?thesis
    by (auto simp: word_less_nat_alt word_unat_eq_iff)
qed

lemma wf_created:
  assumes i: "wf_state s" and nz: "sender \<noteq> 0" and n: "nextGameId s \<noteq> - 1"
  shows "wf_state (createdState sender s)"
  unfolding wf_state_def
proof (intro allI)
  fix gameId
  from i have old: "seats_ok (games s gameId) (playerIndex s gameId)" "roles_ok (games s gameId)"
    "registry_ok s gameId"
    by (simp_all add: wf_state_def)
  show "seats_ok (games (createdState sender s) gameId) (playerIndex (createdState sender s) gameId)
      \<and> roles_ok (games (createdState sender s) gameId) \<and> registry_ok (createdState sender s) gameId"
  proof (cases "gameId = nextGameId s")
    case True
    have "seats_ok (games (createdState sender s) gameId) (playerIndex (createdState sender s) gameId)"
      using nz by (simp add: True createdState_def seats_ok_def emptyGame_def)
    moreover have "roles_ok (games (createdState sender s) gameId)"
      by (simp add: True createdState_def roles_ok_def emptyGame_def)
    moreover have "registry_ok (createdState sender s) gameId"
      using nz n by (simp add: True createdState_def registry_ok_def u256_less_Suc)
    ultimately show ?thesis by simp
  next
    case False
    then show ?thesis
      using old n by (simp add: createdState_def registry_ok_def u256_less_Suc)
  qed
qed

lemma wf_joined:
  assumes i: "wf_state s" and nz: "sender \<noteq> 0"
    and c: "creator (games s gameId) \<noteq> 0" and st: "\<not> started (games s gameId)"
    and n: "unat (playerCount (games s gameId)) < 4" and new: "playerIndex s gameId sender = 0"
  shows "wf_state (joinedState sender gameId s)"
  unfolding wf_state_def
proof (intro allI)
  fix g'
  from i have old: "seats_ok (games s g') (playerIndex s g')" "roles_ok (games s g')"
    "registry_ok s g'"
    by (simp_all add: wf_state_def)
  show "seats_ok (games (joinedState sender gameId s) g') (playerIndex (joinedState sender gameId s) g')
      \<and> roles_ok (games (joinedState sender gameId s) g') \<and> registry_ok (joinedState sender gameId s) g'"
  proof (cases "g' = gameId")
    case True
    have "seats_ok (games (joinedState sender gameId s) g') (playerIndex (joinedState sender gameId s) g')"
      using seats_ok_add[OF old(1)[unfolded True] n new nz]
      by (simp add: True joinedState_def Let_def)
    moreover have "roles_ok (games (joinedState sender gameId s) g')"
      using st by (simp add: True joinedState_def roles_ok_def Let_def)
    moreover have "registry_ok (joinedState sender gameId s) g'"
      using old(3) c by (simp add: True joinedState_def registry_ok_def Let_def)
    ultimately show ?thesis by simp
  next
    case False
    then show ?thesis
      using old by (simp add: joinedState_def registry_ok_def Let_def)
  qed
qed

lemma wf_started:
  assumes i: "wf_state s"
    and c: "creator (games s gameId) \<noteq> 0" and n: "playerCount (games s gameId) = 4"
  shows "wf_state (startedState env blk sender gameId s)"
  unfolding wf_state_def
proof (intro allI)
  fix g'
  from i have old: "seats_ok (games s g') (playerIndex s g')" "roles_ok (games s g')"
    "registry_ok s g'"
    by (simp_all add: wf_state_def)
  show "seats_ok (games (startedState env blk sender gameId s) g') (playerIndex (startedState env blk sender gameId s) g')
      \<and> roles_ok (games (startedState env blk sender gameId s) g') \<and> registry_ok (startedState env blk sender gameId s) g'"
  proof (cases "g' = gameId")
    case True
    have "seats_ok (games (startedState env blk sender gameId s) g') (playerIndex (startedState env blk sender gameId s) g')"
      using old(1) by (simp add: True startedState_def seats_ok_def Let_def)
    moreover have "roles_ok (games (startedState env blk sender gameId s) g')"
      using n by (auto simp add: True startedState_def roles_ok_def Let_def mset_shuffled dest!: lt4_cases)
    moreover have "registry_ok (startedState env blk sender gameId s) g'"
      using old(3) c by (simp add: True startedState_def registry_ok_def Let_def)
    ultimately show ?thesis by simp
  next
    case False
    then show ?thesis
      using old by (simp add: startedState_def registry_ok_def Let_def)
  qed
qed

lemma wf_attacked:
  assumes i: "wf_state s"
    and c: "creator (games s gameId) \<noteq> 0" and st: "started (games s gameId)"
    and a: "attackerSeat < 4" "get4 (roles (games s gameId)) attackerSeat = 2"
    and t: "targetSeat < 4" "targetSeat \<noteq> attackerSeat"
  shows "wf_state (attackedState gameId targetSeat s)"
  unfolding wf_state_def
proof (intro allI)
  fix g'
  from i have old: "seats_ok (games s g') (playerIndex s g')" "roles_ok (games s g')"
    "registry_ok s g'"
    by (simp_all add: wf_state_def)
  show "seats_ok (games (attackedState gameId targetSeat s) g') (playerIndex (attackedState gameId targetSeat s) g')
      \<and> roles_ok (games (attackedState gameId targetSeat s) g') \<and> registry_ok (attackedState gameId targetSeat s) g'"
  proof (cases "g' = gameId")
    case True
    have "seats_ok (games (attackedState gameId targetSeat s) g') (playerIndex (attackedState gameId targetSeat s) g')"
      using old(1) by (simp add: True attackedState_def seats_ok_def)
    moreover have "roles_ok (games (attackedState gameId targetSeat s) g')"
    proof -
      from old(2) st have m: "mset (list4 (roles (games s gameId))) = {#1, 1, 2, 3#}"
        and al: "\<And>i. i < 4 \<Longrightarrow> get4 (roles (games s gameId)) i = 2 \<Longrightarrow> get4 (alive (games s gameId)) i"
        and pc: "playerCount (games s gameId) = 4"
        by (simp_all add: True roles_ok_def)
      have "i = attackerSeat" if "i < 4" "get4 (roles (games s gameId)) i = 2" for i
        using one_wolf[OF m] that a by blast
      then show ?thesis
        using al t pc m by (auto simp: True attackedState_def roles_ok_def get4_set4)
    qed
    moreover have "registry_ok (attackedState gameId targetSeat s) g'"
      using old(3) c by (simp add: True attackedState_def registry_ok_def)
    ultimately show ?thesis by simp
  next
    case False
    then show ?thesis
      using old by (simp add: attackedState_def registry_ok_def)
  qed
qed

lemma wf_fresh:
  assumes "wf_state s"
  shows "games s (nextGameId s) = emptyGame" "playerIndex s (nextGameId s) = (\<lambda>_. 0)"
  using assms by (auto simp: wf_state_def registry_ok_def)

lemma wf_seats: "wf_state s \<Longrightarrow> seats_ok (games s gameId) (playerIndex s gameId)"
  by (simp add: wf_state_def)

lemma seatOf_Some:
  assumes "wf_state s" "seatOf s gameId a = Some k"
  shows "k < 4" "k < unat (playerCount (games s gameId))" "get4 (players (games s gameId)) k = a"
    "a \<noteq> 0" "playerIndex s gameId a \<noteq> 0" "unat (playerIndex s gameId a - 1) = k"
  using assms(2) seats_ok_seat[OF wf_seats[OF assms(1)], of gameId a]
  by (auto simp: seatOf_def split: if_splits)

lemma snd_view [simp]: "snd (view s f r) = s"
  by (simp add: view_def split: sum.splits)

lemma wf_exec:
  assumes i: "wf_state s" and nz: "sender \<noteq> 0"
  shows "wf_state (snd (exec env blk sender c s))"
proof (cases c)
  case CreateGame
  then show ?thesis
    using i nz wf_created[OF i nz]
    by (simp add: createGame_eq[OF wf_fresh[OF i]] commit_def)
next
  case (JoinGame gameId)
  then show ?thesis
    using i wf_joined[OF i nz, of gameId]
    by (simp add: joinGame_eq commit_def)
next
  case (StartGame gameId)
  then show ?thesis
    using i wf_started[OF i, of gameId]
    by (simp add: startGame_eq commit_def)
next
  case (Attack gameId target)
  show ?thesis
  proof (cases "attack sender gameId target s")
    case (Inl e)
    then show ?thesis using i by (simp add: Attack commit_def)
  next
    case (Inr r)
    then obtain a t where
      "seatOf s gameId sender = Some a" "seatOf s gameId target = Some t"
      "creator (games s gameId) \<noteq> 0" "started (games s gameId)"
      "get4 (roles (games s gameId)) a = 2" "t \<noteq> a"
      "r = ([PlayerAttacked gameId sender target], attackedState gameId t s)"
      by (auto simp: attack_eq[OF wf_seats[OF i]] split: if_splits option.splits)
    then show ?thesis
      using wf_attacked[OF i, of gameId a t] seatOf_Some(1)[OF i, of gameId sender a]
        seatOf_Some(1)[OF i, of gameId target t] Inr
      by (simp add: Attack commit_def)
  qed
qed (use i in simp_all)

lemma wf_deployed: "deployed s \<Longrightarrow> wf_state s"
  by (simp add: deployed_def wf_state_def seats_ok_def roles_ok_def registry_ok_def emptyGame_def)

lemma reachable_wf: "reachable env s \<Longrightarrow> wf_state s"
  by (induction rule: reachable.induct) (simp_all add: wf_deployed wf_exec)

lemma reachable_run:
  "reachable env s \<Longrightarrow> \<forall>t\<in>set txs. fst (snd t) \<noteq> 0 \<Longrightarrow> reachable env (run env s txs)"
proof (induction txs arbitrary: s)
  case Nil
  then show ?case by simp
next
  case (Cons t txs)
  obtain blk sender c where t: "t = (blk, sender, c)" by (cases t)
  from Cons.prems have "reachable env (snd (exec env blk sender c s))"
    by (simp add: t reachable_exec)
  then show ?case using Cons.IH Cons.prems by (simp add: t)
qed

subsection \<open>Queries, the concrete game after its start, and attack\<close>

lemma unat_u8_small: "n < 256 \<Longrightarrow> unat (of_nat n :: u8) = n"
  by (simp add: unat_of_nat)

lemma alive_loop_step:
  assumes "i < 4" "n < 4"
  shows "alive_loop g i (of_nat n) = alive_loop g (i + 1) (of_nat (n + seatAlive g i))"
proof -
  have "unat (of_nat n :: u8) = n" using assms(2) by (simp add: unat_u8_small)
  then have "(of_nat n :: u8) \<noteq> 255" using assms(2) by auto
  then show ?thesis
    using assms(1) by (subst alive_loop.simps) (simp add: seatAlive_def)
qed

lemma alive_loop_done: "\<not> i < 4 \<Longrightarrow> alive_loop g i c = Inr c"
  by (subst alive_loop.simps) simp

lemma seatAlive_le: "seatAlive g i \<le> 1"
  by (simp add: seatAlive_def)

lemma alive_loop_0: "alive_loop g 0 0 = Inr (of_nat (aliveSeats g))"
proof -
  have le: "seatAlive g 0 \<le> 1" "seatAlive g 1 \<le> 1" "seatAlive g 2 \<le> 1" "seatAlive g 3 \<le> 1"
    by (rule seatAlive_le)+
  have "alive_loop g 0 0 = alive_loop g 1 (of_nat (seatAlive g 0))"
    using alive_loop_step[of 0 0 g] by simp
  also have "\<dots> = alive_loop g 2 (of_nat (seatAlive g 0 + seatAlive g 1))"
    using alive_loop_step[of 1 "seatAlive g 0" g] le by (simp add: Suc_Suc_0)
  also have "\<dots> = alive_loop g 3 (of_nat (seatAlive g 0 + seatAlive g 1 + seatAlive g 2))"
    using alive_loop_step[of 2 "seatAlive g 0 + seatAlive g 1" g] le by simp
  also have "\<dots> = alive_loop g 4 (of_nat (aliveSeats g))"
    using alive_loop_step[of 3 "seatAlive g 0 + seatAlive g 1 + seatAlive g 2" g] le
    by (simp add: aliveSeats_def)
  finally show ?thesis
    by (simp add: alive_loop_done)
qed

lemma getAlivePlayerCount_eq:
  "getAlivePlayerCount gameId s =
     (if creator (games s gameId) = 0 then Inl GameNotFound
      else Inr (of_nat (aliveSeats (games s gameId))))"
  by (simp add: getAlivePlayerCount_def alive_loop_0)

lemma aliveSeats_le: "aliveSeats g \<le> 4"
  using seatAlive_le[of g 0] seatAlive_le[of g 1] seatAlive_le[of g 2] seatAlive_le[of g 3]
  by (simp add: aliveSeats_def)

lemma seatAlive_set4:
  "t < 4 \<Longrightarrow> i < 4 \<Longrightarrow>
     seatAlive (g\<lparr> alive := set4 (alive g) t False \<rparr>) i = (if i = t then 0 else seatAlive g i)"
  by (simp add: seatAlive_def get4_set4)

lemma aliveSeats_kill:
  assumes t: "t < 4" and a: "get4 (players g) t \<noteq> 0" "get4 (alive g) t"
  shows "aliveSeats g = Suc (aliveSeats (g\<lparr> alive := set4 (alive g) t False \<rparr>))"
proof -
  have one: "seatAlive g t = 1" using a by (simp add: seatAlive_def)
  from t consider "t = 0" | "t = 1" | "t = 2" | "t = 3" by arith
  then show ?thesis
  proof cases
    case 1 then show ?thesis using one by (simp add: aliveSeats_def seatAlive_set4)
  next
    case 2 then show ?thesis using one by (simp add: aliveSeats_def seatAlive_set4)
  next
    case 3 then show ?thesis using one by (simp add: aliveSeats_def seatAlive_set4)
  next
    case 4 then show ?thesis using one by (simp add: aliveSeats_def seatAlive_set4)
  qed
qed

lemma aliveSeats_pos:
  assumes "t < 4" "get4 (players g) t \<noteq> 0" "get4 (alive g) t"
  shows "0 < aliveSeats g"
  using aliveSeats_kill[OF assms] by simp

lemma getPlayerStatus_eq:
  assumes "seats_ok (games s gameId) (playerIndex s gameId)"
  shows "getPlayerStatus gameId player s =
     (if creator (games s gameId) = 0 then Inl GameNotFound
      else case seatOf s gameId player of
        None \<Rightarrow> Inl PlayerNotInGame
      | Some k \<Rightarrow> Inr (get4 (alive (games s gameId)) k))"
  using seats_ok_seat(1,2)[OF assms, of player]
  by (auto simp: getPlayerStatus_def seatOf_def Let_def)

lemma wf_started_exists:
  assumes "wf_state s" "started (games s gameId)"
  shows "creator (games s gameId) \<noteq> 0"
proof
  assume "creator (games s gameId) = 0"
  moreover from assms(1) have "registry_ok s gameId" by (simp add: wf_state_def)
  ultimately have "games s gameId = emptyGame" by (simp add: registry_ok_def)
  with assms(2) show False by (simp add: emptyGame_def)
qed

lemma seatOf_inj:
  assumes "wf_state s" "seatOf s gameId a = Some k" "seatOf s gameId b = Some k"
  shows "a = b"
proof -
  have "a = get4 (players (games s gameId)) k"
    by (rule seatOf_Some(3)[OF assms(1,2), symmetric])
  also have "\<dots> = b"
    by (rule seatOf_Some(3)[OF assms(1,3)])
  finally show ?thesis .
qed

lemma fhe_lobby: "fhe lobby = 0" and acl_lobby: "acl lobby = {}" and nextGameId_lobby: "nextGameId lobby = 1"
  by (simp_all add: lobby_def run_defs)

lemma night_eq: "night = startedState env0 blk0 162 0 lobby"
  by (simp add: night_def startGame_lobby commit_def)

lemma games_night:
  "games night 0 = \<lparr> creator = 161, players = Arr4 161 162 163 164,
     encryptedRoles = Arr4 256 257 258 259, roles = Arr4 3 1 1 2, alive = Arr4 True True True True,
     playerCount = 4, started = True \<rparr>"
  by (simp add: night_eq startedState_def games_lobby fhe_lobby shuffled_def sealed_def swap4_def
      spec_seed_def env0_def blk0_def Let_def)

lemma playerIndex_night: "playerIndex night = playerIndex lobby"
  by (simp add: night_eq startedState_def Let_def)

lemma reachable_genesis: "reachable env0 genesis"
  by (rule reachable_deployed) (simp add: deployed_def genesis_def)

lemma reachable_lobby: "reachable env0 lobby"
  unfolding lobby_def by (rule reachable_run[OF reachable_genesis]) simp

lemma reachable_night: "reachable env0 night"
  unfolding night_def by (rule reachable_run[OF reachable_lobby]) simp

lemma seatOf_night:
  "seatOf night 0 161 = Some 0" "seatOf night 0 162 = Some 1" "seatOf night 0 163 = Some 2"
  "seatOf night 0 164 = Some 3" "seatOf night 0 165 = None"
  by (simp_all add: seatOf_def playerIndex_night playerIndex_lobby)

lemma u8_of_nat_pred:
  assumes "n \<le> 4"
  shows "0 < (of_nat (Suc n) :: u8)" "(of_nat (Suc n) :: u8) - 1 = of_nat n"
proof -
  have "unat (of_nat (Suc n) :: u8) = Suc n" using assms by (intro unat_u8_small) simp
  then show "0 < (of_nat (Suc n) :: u8)" by (simp add: word_less_nat_alt)
  show "(of_nat (Suc n) :: u8) - 1 = of_nat n" by simp
qed

text \<open>
  Claim C4. In a reachable state, for a started game, an alive Werewolf caller and an
  alive, seated target other than the caller, \<open>attack\<close> succeeds and sets exactly the
  target's \<open>alive\<close> entry to false: the new storage is the old one with that one cell
  changed. \<open>getAlivePlayerCount\<close> goes down by exactly one, \<open>getPlayerStatus\<close> of the
  target turns from true to false, and every other seat's liveness, the players, roles,
  encrypted roles, player count, started flag, all other games, the counter and the player
  index are as before.
\<close>

theorem attack_frame:
  assumes r: "reachable env s"
    and st: "started (games s gameId)"
    and a: "seatOf s gameId caller = Some a" "get4 (alive (games s gameId)) a"
      "get4 (roles (games s gameId)) a = 2"
    and t: "seatOf s gameId target = Some t" "get4 (alive (games s gameId)) t"
    and d: "target \<noteq> caller"
  shows "\<exists>s' c. attack caller gameId target s = Inr ([PlayerAttacked gameId caller target], s')
     \<and> s' = s\<lparr> games := (games s)(gameId :=
             (games s gameId)\<lparr> alive := set4 (alive (games s gameId)) t False \<rparr>) \<rparr>
     \<and> getAlivePlayerCount gameId s = Inr c \<and> 0 < c
     \<and> getAlivePlayerCount gameId s' = Inr (c - 1)
     \<and> getPlayerStatus gameId target s = Inr True
     \<and> getPlayerStatus gameId target s' = Inr False
     \<and> (\<forall>i<4. i \<noteq> t \<longrightarrow>
            get4 (alive (games s' gameId)) i = get4 (alive (games s gameId)) i)
     \<and> creator (games s' gameId) = creator (games s gameId)
     \<and> players (games s' gameId) = players (games s gameId)
     \<and> roles (games s' gameId) = roles (games s gameId)
     \<and> encryptedRoles (games s' gameId) = encryptedRoles (games s gameId)
     \<and> playerCount (games s' gameId) = playerCount (games s gameId)
     \<and> started (games s' gameId) = started (games s gameId)
     \<and> (\<forall>g. g \<noteq> gameId \<longrightarrow> games s' g = games s g)
     \<and> nextGameId s' = nextGameId s \<and> playerIndex s' = playerIndex s"
proof -
  let ?g = "games s gameId"
  let ?s' = "attackedState gameId t s"
  from r have wf: "wf_state s" by (rule reachable_wf)
  have so: "seats_ok ?g (playerIndex s gameId)" by (rule wf_seats[OF wf])
  have ex: "creator ?g \<noteq> 0" by (rule wf_started_exists[OF wf st])
  have ta: "t \<noteq> a" using seatOf_inj[OF wf t(1)] a(1) d by auto
  have t4: "t < 4" and pt: "get4 (players ?g) t \<noteq> 0"
    using seatOf_Some(1,3,4)[OF wf t(1)] by simp_all
  have att: "attack caller gameId target s = Inr ([PlayerAttacked gameId caller target], ?s')"
    using ex st a t ta by (simp add: attack_eq[OF so])
  have s': "?s' = s\<lparr> games := (games s)(gameId := ?g\<lparr> alive := set4 (alive ?g) t False \<rparr>) \<rparr>"
    by (simp add: attackedState_def)
  have g': "games ?s' gameId = ?g\<lparr> alive := set4 (alive ?g) t False \<rparr>"
    by (simp add: attackedState_def)
  have so': "seats_ok (games ?s' gameId) (playerIndex ?s' gameId)"
    using so by (simp add: attackedState_def seats_ok_def)
  have "seatOf ?s' gameId target = seatOf s gameId target"
    by (simp add: seatOf_def attackedState_def)
  then have seat': "seatOf ?s' gameId target = Some t"
    by (simp only: t(1))
  have kill: "aliveSeats ?g = Suc (aliveSeats (games ?s' gameId))"
    unfolding g' by (rule aliveSeats_kill[OF t4 pt t(2)])
  have le: "aliveSeats (games ?s' gameId) \<le> 4" by (rule aliveSeats_le)
  have c1: "getAlivePlayerCount gameId s = Inr (of_nat (Suc (aliveSeats (games ?s' gameId))))"
    using ex kill by (simp add: getAlivePlayerCount_eq)
  have c2: "getAlivePlayerCount gameId ?s'
      = Inr (of_nat (Suc (aliveSeats (games ?s' gameId))) - 1)"
    using ex by (simp add: getAlivePlayerCount_eq g')
  have c3: "0 < (of_nat (Suc (aliveSeats (games ?s' gameId))) :: u8)"
    by (rule u8_of_nat_pred(1)[OF le])
  have p1: "getPlayerStatus gameId target s = Inr True"
    using ex t by (simp add: getPlayerStatus_eq[OF so])
  have p2: "getPlayerStatus gameId target ?s' = Inr False"
    using ex seat' t4 by (simp add: getPlayerStatus_eq[OF so'] g')
  have fr: "\<forall>i<4. i \<noteq> t \<longrightarrow> get4 (alive (games ?s' gameId)) i = get4 (alive ?g) i"
    using t4 by (simp add: g' get4_set4)
  have rest: "creator (games ?s' gameId) = creator ?g" "players (games ?s' gameId) = players ?g"
    "roles (games ?s' gameId) = roles ?g" "encryptedRoles (games ?s' gameId) = encryptedRoles ?g"
    "playerCount (games ?s' gameId) = playerCount ?g" "started (games ?s' gameId) = started ?g"
    "\<forall>g. g \<noteq> gameId \<longrightarrow> games ?s' g = games s g"
    "nextGameId ?s' = nextGameId s" "playerIndex ?s' = playerIndex s"
    by (simp_all add: attackedState_def)
  show ?thesis
    apply (rule exI[of _ ?s'])
    apply (rule exI[of _ "of_nat (Suc (aliveSeats (games ?s' gameId)))"])
    apply (intro conjI)
    apply (rule att s' c1 c3 c2 p1 p2 fr rest)+
    done
qed

theorem attack_frame_witness:
  "\<exists>s'. attack 164 0 161 night = Inr ([PlayerAttacked 0 164 161], s')
     \<and> getAlivePlayerCount 0 night = Inr 4 \<and> getAlivePlayerCount 0 s' = Inr 3
     \<and> getPlayerStatus 0 161 night = Inr True \<and> getPlayerStatus 0 161 s' = Inr False"
proof -
  have n: "getAlivePlayerCount 0 night = Inr 4"
    by (simp add: getAlivePlayerCount_eq games_night aliveSeats_def seatAlive_def)
  from attack_frame[OF reachable_night, of 0 164 3 161 0]
  obtain s' c where "attack 164 0 161 night = Inr ([PlayerAttacked 0 164 161], s')"
    "getAlivePlayerCount 0 night = Inr c" "getAlivePlayerCount 0 s' = Inr (c - 1)"
    "getPlayerStatus 0 161 night = Inr True" "getPlayerStatus 0 161 s' = Inr False"
    by (auto simp: games_night seatOf_night)
  with n show ?thesis by auto
qed

text \<open>
  Claim C5. In a reachable state \<open>attack\<close> fails with the first applicable error, in the
  order GameNotFound (game absent), GameNotStarted, PlayerNotInGame (caller not seated),
  PlayerAlreadyDead (caller's seat not alive), NotWerewolf (caller's role is not 2),
  PlayerNotInGame (target not seated), PlayerAlreadyDead (target's seat not alive),
  CannotAttackSelf (target seat is the caller's seat), and succeeds otherwise; no index
  check of the compiler fires. On any failure the transaction leaves the storage as it was.
\<close>

theorem attack_error_precedence:
  assumes "reachable env s"
  shows "attack caller gameId target s =
     (if creator (games s gameId) = 0 then Inl GameNotFound
      else if \<not> started (games s gameId) then Inl GameNotStarted
      else case seatOf s gameId caller of
        None \<Rightarrow> Inl PlayerNotInGame
      | Some callerSeat \<Rightarrow>
          if \<not> get4 (alive (games s gameId)) callerSeat then Inl PlayerAlreadyDead
          else if get4 (roles (games s gameId)) callerSeat \<noteq> 2 then Inl NotWerewolf
          else case seatOf s gameId target of
            None \<Rightarrow> Inl PlayerNotInGame
          | Some targetSeat \<Rightarrow>
              if \<not> get4 (alive (games s gameId)) targetSeat then Inl PlayerAlreadyDead
              else if targetSeat = callerSeat then Inl CannotAttackSelf
              else Inr ([PlayerAttacked gameId caller target],
                        attackedState gameId targetSeat s))
     \<and> (\<forall>e. attack caller gameId target s = Inl e \<longrightarrow>
            exec env blk caller (Attack gameId target) s = (Inl e, s))"
proof -
  have "seats_ok (games s gameId) (playerIndex s gameId)"
    by (rule wf_seats[OF reachable_wf[OF assms]])
  then show ?thesis
    by (simp add: attack_eq commit_def)
qed

theorem attack_error_precedence_witness:
  "attack 161 0 164 night = Inl NotWerewolf
   \<and> exec env0 blk0 161 (Attack 0 164) night = (Inl NotWerewolf, night)
   \<and> attack 164 0 164 night = Inl CannotAttackSelf
   \<and> attack 164 0 165 night = Inl PlayerNotInGame
   \<and> attack 164 7 161 night = Inl GameNotFound
   \<and> attack 161 0 162 lobby = Inl GameNotStarted"
proof -
  have "registry_ok night 7"
    using reachable_wf[OF reachable_night] by (simp add: wf_state_def)
  moreover have "nextGameId night = 1"
    by (simp add: night_eq startedState_def nextGameId_lobby Let_def)
  ultimately have 7: "creator (games night 7) = 0"
    by (simp add: registry_ok_def word_less_nat_alt)
  show ?thesis
    using attack_error_precedence[OF reachable_night, of 161 0 164 blk0]
      attack_error_precedence[OF reachable_night, of 164 0 164 blk0]
      attack_error_precedence[OF reachable_night, of 164 0 165 blk0]
      attack_error_precedence[OF reachable_night, of 164 7 161 blk0]
      attack_error_precedence[OF reachable_lobby, of 161 0 162 blk0] 7
    by (simp add: games_night seatOf_night games_lobby)
qed

subsection \<open>Joining twice, starting once\<close>

lemma wf_seated_exists:
  assumes "wf_state s" "playerIndex s gameId a \<noteq> 0"
  shows "creator (games s gameId) \<noteq> 0"
proof
  assume "creator (games s gameId) = 0"
  moreover from assms(1) have "registry_ok s gameId" by (simp add: wf_state_def)
  ultimately have "playerIndex s gameId = (\<lambda>_. 0)" by (simp add: registry_ok_def)
  with assms(2) show False by simp
qed

lemma wf_full:
  assumes "wf_state s"
  shows "(\<not> unat (playerCount (games s gameId)) < 4) = (playerCount (games s gameId) = 4)"
proof -
  from assms have "unat (playerCount (games s gameId)) \<le> 4"
    by (simp add: wf_state_def seats_ok_def)
  then show ?thesis
    by (auto simp: word_unat_eq_iff)
qed

lemma wf_started_full:
  assumes "wf_state s" "started (games s gameId)"
  shows "playerCount (games s gameId) = 4"
  using assms by (simp add: wf_state_def roles_ok_def)

text \<open>
  Claim C6, as amended. In a reachable state a \<open>joinGame\<close> by an address already seated in
  the game never succeeds, and the error follows the order of the checks of the contract:
  GameAlreadyStarted when the game has started, GameFull when it has not started and holds
  four players, PlayerAlreadyJoined otherwise.
\<close>

theorem joinGame_duplicate:
  assumes "reachable env s" "playerIndex s gameId caller \<noteq> 0"
  shows "joinGame caller gameId s =
     (if started (games s gameId) then Inl GameAlreadyStarted
      else if playerCount (games s gameId) = 4 then Inl GameFull
      else Inl PlayerAlreadyJoined)"
proof -
  from assms(1) have wf: "wf_state s" by (rule reachable_wf)
  show ?thesis
    using wf_seated_exists[OF wf assms(2)] assms(2)
    by (simp add: joinGame_eq wf_full[OF wf])
qed

theorem joinGame_duplicate_witness:
  "playerIndex (run env0 genesis [(blk0, 161, CreateGame)]) 0 161 \<noteq> 0
   \<and> joinGame 161 0 (run env0 genesis [(blk0, 161, CreateGame)]) = Inl PlayerAlreadyJoined"
proof -
  let ?s = "run env0 genesis [(blk0, 161, CreateGame)]"
  have r: "reachable env0 ?s"
    by (rule reachable_run[OF reachable_genesis]) simp
  have p: "playerIndex ?s 0 161 \<noteq> 0" "\<not> started (games ?s 0)" "playerCount (games ?s 0) \<noteq> 4"
    by (simp_all add: run_defs)
  with joinGame_duplicate[OF r p(1)] show ?thesis by simp
qed

text \<open>
  The claim as stated fails: in the full lobby of game 0 the seated address 162 is told
  GameFull, and once the game has started it is told GameAlreadyStarted.
\<close>

theorem joinGame_duplicate_counterexample:
  "reachable env0 lobby \<and> seatOf lobby 0 162 = Some 1 \<and> joinGame 162 0 lobby = Inl GameFull
   \<and> reachable env0 night \<and> seatOf night 0 162 = Some 1
   \<and> joinGame 162 0 night = Inl GameAlreadyStarted"
proof -
  have "seatOf lobby 0 162 = Some 1"
    by (simp add: seatOf_def playerIndex_lobby)
  then show ?thesis
    by (simp add: reachable_lobby reachable_night seatOf_night joinGame_eq games_lobby games_night)
qed

lemma exec_started_mono:
  assumes "started (games s g)"
  shows "started (games (snd (exec env blk sender c s)) g)"
proof (cases c)
  case CreateGame
  then show ?thesis using assms
    by (auto simp: createGame_def addPlayer_def setGame_def commit_def Let_def)
next
  case (JoinGame gameId)
  then show ?thesis using assms
    by (auto simp: joinGame_eq joinedState_def commit_def Let_def)
next
  case (StartGame gameId)
  then show ?thesis using assms
    by (auto simp: startGame_eq startedState_def commit_def Let_def)
next
  case (Attack gameId target)
  then show ?thesis using assms
    by (auto simp: attack_def setGame_def commit_def Let_def)
qed (use assms in simp_all)

lemma run_started_mono:
  "started (games s g) \<Longrightarrow> started (games (run env s txs) g)"
proof (induction txs arbitrary: s)
  case Nil
  then show ?case by simp
next
  case (Cons t txs)
  obtain blk sender c where t: "t = (blk, sender, c)" by (cases t)
  show ?case
    using Cons.IH[OF exec_started_mono[OF Cons.prems]] by (simp add: t)
qed

lemma wf_run:
  "wf_state s \<Longrightarrow> \<forall>t\<in>set txs. fst (snd t) \<noteq> 0 \<Longrightarrow> wf_state (run env s txs)"
proof (induction txs arbitrary: s)
  case Nil
  then show ?case by simp
next
  case (Cons t txs)
  obtain blk sender c where t: "t = (blk, sender, c)" by (cases t)
  from Cons.prems have "wf_state (snd (exec env blk sender c s))"
    by (simp add: t wf_exec)
  then show ?case using Cons.IH Cons.prems by (simp add: t)
qed

lemma exec_starts:
  assumes wf: "wf_state s" and b: "\<not> started (games s g)"
    and a: "started (games (snd (exec env blk sender c s)) g)"
  shows "c = StartGame g \<and> playerCount (games s g) = 4
     \<and> playerCount (games (snd (exec env blk sender c s)) g) = 4"
proof (cases c)
  case CreateGame
  then show ?thesis using a b
    by (auto simp: createGame_eq[OF wf_fresh[OF wf]] createdState_def commit_def emptyGame_def
        split: if_splits)
next
  case (JoinGame gameId)
  then show ?thesis using a b
    by (auto simp: joinGame_eq joinedState_def commit_def Let_def split: if_splits)
next
  case (StartGame gameId)
  then show ?thesis using a b
    by (auto simp: startGame_eq startedState_def commit_def Let_def split: if_splits)
next
  case (Attack gameId target)
  then show ?thesis using a b
    by (auto simp: attack_def setGame_def commit_def Let_def split: if_splits)
qed (use a b in simp_all)

text \<open>
  Claim C7. From a reachable state: a transaction turns \<open>started\<close> of a game from false to
  true only if it is a \<open>startGame\<close> of that game and \<open>playerCount\<close> is 4, before and after;
  once true, \<open>started\<close> stays true along every sequence of transactions; \<open>startGame\<close> by a
  seated caller fails with GameNotReady while \<open>playerCount\<close> is below 4; and after a
  successful \<open>startGame\<close> every later \<open>startGame\<close> of that game, by anyone and after any
  sequence of transactions, fails with GameAlreadyStarted, so that it succeeds at most
  once.
\<close>

theorem started_once:
  assumes "reachable env s"
  shows "(\<forall>blk sender c. \<not> started (games s gameId)
            \<and> started (games (snd (exec env blk sender c s)) gameId) \<longrightarrow>
            c = StartGame gameId \<and> playerCount (games s gameId) = 4
            \<and> playerCount (games (snd (exec env blk sender c s)) gameId) = 4)
       \<and> (\<forall>txs. started (games s gameId) \<longrightarrow> started (games (run env s txs) gameId))
       \<and> (\<forall>blk caller. playerIndex s gameId caller \<noteq> 0 \<and> playerCount (games s gameId) < 4 \<longrightarrow>
            startGame env blk caller gameId s = Inl GameNotReady)
       \<and> (\<forall>blk caller evs s1 txs blk' caller'.
            startGame env blk caller gameId s = Inr (evs, s1)
            \<and> (\<forall>t\<in>set txs. fst (snd t) \<noteq> 0) \<longrightarrow>
            startGame env blk' caller' gameId (run env s1 txs) = Inl GameAlreadyStarted)"
proof (intro conjI allI impI)
  from assms have wf: "wf_state s" by (rule reachable_wf)
  {
    fix blk sender c
    assume "\<not> started (games s gameId)
        \<and> started (games (snd (exec env blk sender c s)) gameId)"
    then have *: "c = StartGame gameId \<and> playerCount (games s gameId) = 4
        \<and> playerCount (games (snd (exec env blk sender c s)) gameId) = 4"
      using exec_starts[OF wf] by blast
    from * show "c = StartGame gameId" by blast
    from * show "playerCount (games s gameId) = 4" by blast
    from * show "playerCount (games (snd (exec env blk sender c s)) gameId) = 4" by blast
  next
    fix txs assume "started (games s gameId)"
    then show "started (games (run env s txs) gameId)" by (rule run_started_mono)
  next
    fix blk caller
    assume a: "playerIndex s gameId caller \<noteq> 0 \<and> playerCount (games s gameId) < 4"
    then have ex: "creator (games s gameId) \<noteq> 0" using wf_seated_exists[OF wf] by blast
    from a have ne: "playerCount (games s gameId) \<noteq> 4" by auto
    then have "\<not> started (games s gameId)" using wf_started_full[OF wf] by blast
    with ex ne a show "startGame env blk caller gameId s = Inl GameNotReady"
      by (simp add: startGame_eq)
  next
    fix blk caller evs s1 blk' caller' and txs :: "tx list"
    assume a: "startGame env blk caller gameId s = Inr (evs, s1)
        \<and> (\<forall>t\<in>set txs. fst (snd t) \<noteq> 0)"
    then have s1: "s1 = startedState env blk caller gameId s"
      and c: "creator (games s gameId) \<noteq> 0" and n: "playerCount (games s gameId) = 4"
      by (auto simp: startGame_eq split: if_splits)
    have "wf_state s1" unfolding s1 by (rule wf_started[OF wf c n])
    then have wf': "wf_state (run env s1 txs)" using a by (intro wf_run) simp_all
    have "started (games s1 gameId)" by (simp add: s1 startedState_def Let_def)
    then have st: "started (games (run env s1 txs) gameId)" by (rule run_started_mono)
    from wf_started_exists[OF wf' st] st
    show "startGame env blk' caller' gameId (run env s1 txs) = Inl GameAlreadyStarted"
      by (simp add: startGame_eq)
  }
qed

theorem started_once_witness:
  "startGame env0 blk0 162 0 lobby = Inr ([GameStarted 0], startedState env0 blk0 162 0 lobby)
   \<and> startGame env0 blk0 161 0
        (run env0 (startedState env0 blk0 162 0 lobby) [(blk0, 164, Attack 0 161)])
      = Inl GameAlreadyStarted
   \<and> started (games (run env0 night [(blk0, 164, Attack 0 161), (blk0, 165, CreateGame)]) 0)
   \<and> startGame env0 blk0 161 0 (run env0 genesis [(blk0, 161, CreateGame)]) = Inl GameNotReady"
proof -
  let ?porch = "run env0 genesis [(blk0, 161, CreateGame)]"
  have r: "reachable env0 ?porch"
    by (rule reachable_run[OF reachable_genesis]) simp
  have p: "playerIndex ?porch 0 161 \<noteq> 0" "playerCount (games ?porch 0) < 4"
    by (simp_all add: run_defs word_less_nat_alt)
  have "startGame env0 blk0 161 0 ?porch = Inl GameNotReady"
    using started_once[OF r, of 0] p by blast
  moreover have "startGame env0 blk0 161 0
        (run env0 (startedState env0 blk0 162 0 lobby) [(blk0, 164, Attack 0 161)])
      = Inl GameAlreadyStarted"
    using started_once[OF reachable_lobby, of 0] startGame_lobby
    by (elim conjE allE[of _ blk0] allE[of _ 162] allE[of _ "[GameStarted 0]"]
        allE[of _ "startedState env0 blk0 162 0 lobby"] allE[of _ "[(blk0, 164, Attack 0 161)]"]
        allE[of _ 161]) simp
  moreover have "started (games (run env0 night [(blk0, 164, Attack 0 161), (blk0, 165, CreateGame)]) 0)"
    using started_once[OF reachable_night, of 0] by (simp add: games_night del: run.simps)
  ultimately show ?thesis using startGame_lobby by simp
qed

subsection \<open>Queries and the Werewolf\<close>

text \<open>
  Claim C9. Each of the five read-only operations, called through a transaction with the
  same explicit arguments on the same storage, gives the same result or the same error
  whoever the caller is and whatever the block, and leaves the storage as it was: none of
  them reads \<^verbatim>\<open>msg.sender\<close>, and a \<^verbatim>\<open>view\<close> function writes nothing.
\<close>

theorem queries_ignore_caller:
  assumes "isQuery q"
  shows "exec env blk caller1 q s = exec env blk' caller2 q s
       \<and> snd (exec env blk caller1 q s) = s"
  using assms by (cases q) simp_all

theorem queries_ignore_caller_witness:
  "exec env0 blk0 161 (GetAlivePlayerCount 0) night = exec env0 blk0 999 (GetAlivePlayerCount 0) night
   \<and> exec env0 blk0 999 (GetAlivePlayerCount 0) night = (Inr (RUint8 4, []), night)
   \<and> exec env0 blk0 161 (GetPlayerStatus 0 165) night = exec env0 blk0 164 (GetPlayerStatus 0 165) night
   \<and> exec env0 blk0 164 (GetPlayerStatus 0 165) night = (Inl PlayerNotInGame, night)"
proof -
  have so: "seats_ok (games night 0) (playerIndex night 0)"
    by (rule wf_seats[OF reachable_wf[OF reachable_night]])
  have "exec env0 blk0 999 (GetAlivePlayerCount 0) night = (Inr (RUint8 4, []), night)"
    by (simp add: view_def getAlivePlayerCount_eq games_night aliveSeats_def seatAlive_def)
  moreover have "exec env0 blk0 164 (GetPlayerStatus 0 165) night = (Inl PlayerNotInGame, night)"
    by (simp add: view_def getPlayerStatus_eq[OF so] seatOf_night games_night)
  ultimately show ?thesis
    using queries_ignore_caller[of "GetAlivePlayerCount 0" env0 blk0 161 night blk0 999]
      queries_ignore_caller[of "GetPlayerStatus 0 165" env0 blk0 161 night blk0 164]
    by simp
qed

lemma exec_roles_started:
  assumes wf: "wf_state s" and st: "started (games s g)"
  shows "roles (games (snd (exec env blk sender c s)) g) = roles (games s g)"
proof (cases c)
  case CreateGame
  have "nextGameId s \<noteq> g"
    using wf_fresh(1)[OF wf] st by (auto simp: emptyGame_def)
  then show ?thesis using CreateGame
    by (auto simp: createGame_eq[OF wf_fresh[OF wf]] createdState_def commit_def)
next
  case (JoinGame gameId)
  then show ?thesis using st
    by (auto simp: joinGame_eq joinedState_def commit_def Let_def)
next
  case (StartGame gameId)
  then show ?thesis using st
    by (auto simp: startGame_eq startedState_def commit_def Let_def)
next
  case (Attack gameId target)
  then show ?thesis
    by (auto simp: attack_def setGame_def commit_def Let_def)
qed simp_all

lemma u8_of_nat_ge1:
  assumes "0 < n" "n \<le> 4"
  shows "1 \<le> (of_nat n :: u8)"
proof -
  have "unat (of_nat n :: u8) = n" using assms by (intro unat_u8_small) simp
  then show ?thesis using assms by (simp add: word_le_nat_alt)
qed

text \<open>
  Claim C10. In a reachable state of a started game there is exactly one seat with role 2
  and it is alive; \<open>getAlivePlayerCount\<close> is at least 1; \<open>attack\<close> rejects a seated
  caller whose role is not 2 and rejects a caller who targets itself; and after any further
  transaction the Werewolf seat still has role 2 and is still alive.
\<close>

theorem werewolf_survives:
  assumes r: "reachable env s" and st: "started (games s gameId)"
  shows "(\<exists>!w. w < 4 \<and> get4 (roles (games s gameId)) w = 2)
       \<and> (\<forall>w<4. get4 (roles (games s gameId)) w = 2 \<longrightarrow> get4 (alive (games s gameId)) w)
       \<and> (\<exists>n. getAlivePlayerCount gameId s = Inr n \<and> 1 \<le> n)
       \<and> (\<forall>caller target a. seatOf s gameId caller = Some a
              \<and> get4 (roles (games s gameId)) a \<noteq> 2 \<longrightarrow>
            attack caller gameId target s
              = (if get4 (alive (games s gameId)) a then Inl NotWerewolf else Inl PlayerAlreadyDead))
       \<and> (\<forall>caller. \<exists>e. attack caller gameId caller s = Inl e)
       \<and> (\<forall>blk sender c w. sender \<noteq> 0 \<and> w < 4 \<and> get4 (roles (games s gameId)) w = 2 \<longrightarrow>
            get4 (roles (games (snd (exec env blk sender c s)) gameId)) w = 2
            \<and> get4 (alive (games (snd (exec env blk sender c s)) gameId)) w)"
proof -
  let ?g = "games s gameId"
  from r have wf: "wf_state s" by (rule reachable_wf)
  have so: "seats_ok ?g (playerIndex s gameId)" by (rule wf_seats[OF wf])
  have ex: "creator ?g \<noteq> 0" by (rule wf_started_exists[OF wf st])
  from wf st have ro: "playerCount ?g = 4" "mset (list4 (roles ?g)) = {#1, 1, 2, 3#}"
    "\<And>w. w < 4 \<Longrightarrow> get4 (roles ?g) w = 2 \<Longrightarrow> get4 (alive ?g) w"
    by (simp_all add: wf_state_def roles_ok_def)
  have 1: "\<exists>!w. w < 4 \<and> get4 (roles ?g) w = 2" by (rule one_wolf[OF ro(2)])
  have 2: "\<forall>w<4. get4 (roles ?g) w = 2 \<longrightarrow> get4 (alive ?g) w" using ro(3) by blast
  from 1 obtain w where w: "w < 4" "get4 (roles ?g) w = 2" by blast
  have "get4 (players ?g) w \<noteq> 0"
    using so w(1) ro(1) by (simp add: seats_ok_def)
  then have "0 < aliveSeats ?g" using w ro(3) by (intro aliveSeats_pos[of w]) simp_all
  then have "1 \<le> (of_nat (aliveSeats ?g) :: u8)" by (intro u8_of_nat_ge1 aliveSeats_le)
  then have 3: "\<exists>n. getAlivePlayerCount gameId s = Inr n \<and> 1 \<le> n"
    using ex by (simp add: getAlivePlayerCount_eq)
  have 4: "\<forall>caller target a. seatOf s gameId caller = Some a \<and> get4 (roles ?g) a \<noteq> 2 \<longrightarrow>
      attack caller gameId target s = (if get4 (alive ?g) a then Inl NotWerewolf else Inl PlayerAlreadyDead)"
    using ex st by (simp add: attack_eq[OF so])
  have 5: "\<forall>caller. \<exists>e. attack caller gameId caller s = Inl e"
    using ex st by (simp add: attack_eq[OF so] split: option.splits)
  have 6: "\<forall>blk sender c w. sender \<noteq> 0 \<and> w < 4 \<and> get4 (roles ?g) w = 2 \<longrightarrow>
      get4 (roles (games (snd (exec env blk sender c s)) gameId)) w = 2
      \<and> get4 (alive (games (snd (exec env blk sender c s)) gameId)) w"
  proof (intro allI impI)
    fix blk c w and sender :: address
    assume a: "sender \<noteq> 0 \<and> w < 4 \<and> get4 (roles ?g) w = 2"
    let ?s' = "snd (exec env blk sender c s)"
    from a have wf': "wf_state ?s'" using wf_exec[OF wf] by blast
    have st': "started (games ?s' gameId)" by (rule exec_started_mono[OF st])
    have eq: "roles (games ?s' gameId) = roles ?g" by (rule exec_roles_started[OF wf st])
    from wf' st' have "\<And>w. w < 4 \<Longrightarrow> get4 (roles (games ?s' gameId)) w = 2
        \<Longrightarrow> get4 (alive (games ?s' gameId)) w"
      by (simp add: wf_state_def roles_ok_def)
    with a eq show "get4 (roles (games ?s' gameId)) w = 2 \<and> get4 (alive (games ?s' gameId)) w"
      by simp
  qed
  from 1 2 3 4 5 6 show ?thesis by (intro conjI)
qed

theorem werewolf_survives_witness:
  "get4 (roles (games night 0)) 3 = 2 \<and> get4 (alive (games night 0)) 3
   \<and> getAlivePlayerCount 0 night = Inr 4
   \<and> attack 161 0 164 night = Inl NotWerewolf
   \<and> (\<exists>e. attack 164 0 164 night = Inl e)
   \<and> get4 (alive (games (snd (exec env0 blk0 164 (Attack 0 161) night)) 0)) 3"
proof -
  have n: "getAlivePlayerCount 0 night = Inr 4"
    by (simp add: getAlivePlayerCount_eq games_night aliveSeats_def seatAlive_def)
  have st: "started (games night 0)" by (simp add: games_night)
  from werewolf_survives[OF reachable_night st] have
    2: "\<forall>w<4. get4 (roles (games night 0)) w = 2 \<longrightarrow> get4 (alive (games night 0)) w"
    and 4: "\<forall>caller target a. seatOf night 0 caller = Some a
              \<and> get4 (roles (games night 0)) a \<noteq> 2 \<longrightarrow>
            attack caller 0 target night
              = (if get4 (alive (games night 0)) a then Inl NotWerewolf else Inl PlayerAlreadyDead)"
    and 5: "\<forall>caller. \<exists>e. attack caller 0 caller night = Inl e"
    and 6: "\<forall>blk sender c w. sender \<noteq> 0 \<and> w < 4 \<and> get4 (roles (games night 0)) w = 2 \<longrightarrow>
            get4 (roles (games (snd (exec env0 blk sender c night)) 0)) w = 2
            \<and> get4 (alive (games (snd (exec env0 blk sender c night)) 0)) w"
    by blast+
  have r3: "get4 (roles (games night 0)) 3 = 2" by (simp add: games_night)
  have "get4 (alive (games night 0)) 3" using 2 r3 by simp
  moreover have "attack 161 0 164 night = Inl NotWerewolf"
    using 4[rule_format, of 161 0 164] by (simp add: seatOf_night games_night)
  moreover have "get4 (alive (games (snd (exec env0 blk0 164 (Attack 0 161) night)) 0)) 3"
    using 6[rule_format, of 164 3 blk0 "Attack 0 161"] r3 by simp
  ultimately show ?thesis using n r3 5 by blast
qed

subsection \<open>The registry\<close>

lemma soloGames_0: "soloGames 0 = genesis"
  by (simp add: soloGames_def genesis_def)

lemma soloGames_step:
  assumes "k \<noteq> - 1"
  shows "createdState 161 (soloGames k) = soloGames (k + 1)"
  by (rule state.equality)
     (auto simp: createdState_def soloGames_def u256_less_Suc[OF assms] fun_eq_iff)

lemma reachable_soloGames: "reachable env0 (soloGames (of_nat n))"
proof (induction n)
  case 0
  then show ?case by (simp add: soloGames_0 reachable_genesis)
next
  case (Suc n)
  show ?case
  proof (cases "(of_nat n :: u256) = - 1")
    case True
    then have "(of_nat (Suc n) :: u256) = 0" by simp
    then show ?thesis by (simp only: soloGames_0 reachable_genesis)
  next
    case False
    let ?s = "soloGames (of_nat n)"
    have k: "nextGameId ?s = of_nat n" by (simp add: soloGames_def)
    have "reachable env0 (snd (exec env0 blk0 161 CreateGame ?s))"
      by (rule reachable_exec[OF Suc.IH]) simp
    moreover have "snd (exec env0 blk0 161 CreateGame ?s) = createdState 161 ?s"
      using False by (simp add: createGame_eq[OF wf_fresh[OF reachable_wf[OF Suc.IH]]] commit_def k)
    ultimately have "reachable env0 (soloGames (of_nat n + 1))"
      by (simp only: soloGames_step[OF False])
    moreover have "(of_nat (Suc n) :: u256) = of_nat n + 1" by simp
    ultimately show ?thesis by (simp only:)
  qed
qed

lemma reachable_crowded: "reachable env0 (soloGames (- 1))"
  using reachable_soloGames[of "unat (- 1 :: u256)"] by (simp only: of_nat_unat ucast_id)

lemma exec_counter:
  "c \<noteq> CreateGame \<Longrightarrow> nextGameId (snd (exec env blk sender c s)) = nextGameId s"
proof (cases c)
  case (JoinGame gameId)
  then show ?thesis by (auto simp: joinGame_eq joinedState_def commit_def Let_def)
next
  case (StartGame gameId)
  then show ?thesis by (auto simp: startGame_eq startedState_def commit_def Let_def)
next
  case (Attack gameId target)
  then show ?thesis by (auto simp: attack_def setGame_def commit_def Let_def)
qed simp_all

lemma unat_u256_Suc: "n \<noteq> (- 1 :: u256) \<Longrightarrow> unat (n + 1) = Suc (unat n)"
proof -
  assume "n \<noteq> - 1"
  then have "1 + n \<noteq> 0"
    by (metis add.commute add_eq_0_iff)
  then have "unat (1 + n) = Suc (unat n)" by (rule unatSuc)
  then show ?thesis by (simp add: add.commute)
qed

lemma exec_create_counter:
  assumes "wf_state s"
  shows "unat (nextGameId (snd (exec env blk sender CreateGame s)))
     = unat (nextGameId s) + (if \<not> isl (fst (exec env blk sender CreateGame s)) then 1 else 0)"
  by (simp add: createGame_eq[OF wf_fresh[OF assms]] commit_def createdState_def unat_u256_Suc)

lemma run_counter:
  "wf_state s \<Longrightarrow> \<forall>t\<in>set txs. fst (snd t) \<noteq> 0 \<Longrightarrow>
     unat (nextGameId (run env s txs)) = unat (nextGameId s) + creations env s txs"
proof (induction txs arbitrary: s)
  case Nil
  then show ?case by simp
next
  case (Cons t txs)
  obtain blk sender c where t: "t = (blk, sender, c)" by (cases t)
  let ?s' = "snd (exec env blk sender c s)"
  from Cons.prems have wf': "wf_state ?s'" by (simp add: t wf_exec)
  from Cons.prems have "unat (nextGameId (run env ?s' txs)) = unat (nextGameId ?s') + creations env ?s' txs"
    by (intro Cons.IH[OF wf']) simp
  moreover have "unat (nextGameId ?s')
      = unat (nextGameId s) + (if c = CreateGame \<and> \<not> isl (fst (exec env blk sender c s)) then 1 else 0)"
  proof (cases "c = CreateGame")
    case True
    then show ?thesis using exec_create_counter[OF Cons.prems(1)] by simp
  next
    case False
    then show ?thesis by (simp add: exec_counter)
  qed
  ultimately show ?case by (simp add: t)
qed

text \<open>
  Claim C8, as amended. In every state \<open>s\<close> reached from a deployment by signed
  transactions, \<open>getNextGameId\<close> returns the number of games created so far (0 at
  deployment), and the games that exist are exactly those with an identifier below it.
  While the counter is below \<open>2^256 - 1\<close>, \<open>createGame\<close> succeeds for every caller: it
  returns the counter as the identifier of the new game, increments the counter by exactly 1,
  and initialises the new game with the caller as creator, the caller at seat 0,
  \<open>playerCount\<close> 1 and \<open>started\<close> false, leaving every other game as it was. No other
  call changes the counter. When the counter is \<open>2^256 - 1\<close> the checked increment reverts
  with the arithmetic panic.
\<close>

theorem createGame_allocates:
  assumes d: "deployed s0" and sg: "\<forall>t\<in>set txs. fst (snd t) \<noteq> 0" and s: "s = run env s0 txs"
  shows "getNextGameId s0 = Inr 0
     \<and> getNextGameId s = Inr (of_nat (creations env s0 txs))
     \<and> unat (nextGameId s) = creations env s0 txs
     \<and> (\<forall>g. (creator (games s g) \<noteq> 0) = (g < nextGameId s))
     \<and> createGame caller s =
          (if nextGameId s = - 1 then Inl (Panic 17)
           else Inr (nextGameId s, [GameCreated (nextGameId s) caller], createdState caller s))
     \<and> nextGameId (createdState caller s) = nextGameId s + 1
     \<and> games (createdState caller s) (nextGameId s)
          = emptyGame\<lparr> creator := caller, players := Arr4 caller 0 0 0,
              alive := Arr4 True False False False, playerCount := 1 \<rparr>
     \<and> seatOf (createdState caller s) (nextGameId s) caller = Some 0
     \<and> \<not> started (games (createdState caller s) (nextGameId s))
     \<and> (\<forall>g. g \<noteq> nextGameId s \<longrightarrow> games (createdState caller s) g = games s g)
     \<and> (\<forall>blk sender c. c \<noteq> CreateGame \<longrightarrow>
            nextGameId (snd (exec env blk sender c s)) = nextGameId s)"
proof -
  have wf0: "wf_state s0" by (rule wf_deployed[OF d])
  have wf: "wf_state s" unfolding s by (rule wf_run[OF wf0 sg])
  have z: "nextGameId s0 = 0" using d by (simp add: deployed_def)
  have n: "unat (nextGameId s) = creations env s0 txs"
    using run_counter[OF wf0 sg, of env] by (simp add: s z)
  have 1: "getNextGameId s0 = Inr 0" by (simp add: getNextGameId_def z)
  have "of_nat (unat (nextGameId s)) = nextGameId s" by simp
  then have 2: "getNextGameId s = Inr (of_nat (creations env s0 txs))"
    by (simp add: getNextGameId_def n)
  have 3: "\<forall>g. (creator (games s g) \<noteq> 0) = (g < nextGameId s)"
    using wf by (simp add: wf_state_def registry_ok_def)
  note 4 = createGame_eq[OF wf_fresh[OF wf], of caller]
  have 5: "nextGameId (createdState caller s) = nextGameId s + 1"
    "games (createdState caller s) (nextGameId s)
          = emptyGame\<lparr> creator := caller, players := Arr4 caller 0 0 0,
              alive := Arr4 True False False False, playerCount := 1 \<rparr>"
    "seatOf (createdState caller s) (nextGameId s) caller = Some 0"
    "\<not> started (games (createdState caller s) (nextGameId s))"
    "\<forall>g. g \<noteq> nextGameId s \<longrightarrow> games (createdState caller s) g = games s g"
    by (simp_all add: createdState_def seatOf_def emptyGame_def)
  have 6: "\<forall>blk sender c. c \<noteq> CreateGame \<longrightarrow>
            nextGameId (snd (exec env blk sender c s)) = nextGameId s"
    by (simp add: exec_counter)
  from 1 2 n 3 4 5 6 show ?thesis by (intro conjI)
qed

theorem createGame_allocates_witness:
  "getNextGameId genesis = Inr 0 \<and> getNextGameId lobby = Inr 1
   \<and> creations env0 genesis [(blk0, 161, CreateGame), (blk0, 162, JoinGame 0),
        (blk0, 163, JoinGame 0), (blk0, 164, JoinGame 0)] = 1
   \<and> createGame 165 lobby = Inr (1, [GameCreated 1 165], createdState 165 lobby)
   \<and> nextGameId (createdState 165 lobby) = 2"
proof -
  let ?txs = "[(blk0, 161, CreateGame), (blk0, 162, JoinGame 0),
        (blk0, 163, JoinGame 0), (blk0, 164, JoinGame 0)] :: tx list"
  have d: "deployed genesis" by (simp add: deployed_def genesis_def)
  have sg: "\<forall>t\<in>set ?txs. fst (snd t) \<noteq> 0" by simp
  have c: "creations env0 genesis ?txs = 1"
    by (simp add: run_defs)
  note th = createGame_allocates[OF d sg lobby_def, of 165]
  from th have 1: "getNextGameId genesis = Inr 0"
    by (elim conjE)
  from th have 2: "getNextGameId lobby = Inr (of_nat (creations env0 genesis ?txs))"
    by (elim conjE)
  from th have 3: "createGame 165 lobby =
      (if nextGameId lobby = - 1 then Inl (Panic 17)
       else Inr (nextGameId lobby, [GameCreated (nextGameId lobby) 165], createdState 165 lobby))"
    by (elim conjE)
  from th have 4: "nextGameId (createdState 165 lobby) = nextGameId lobby + 1"
    by (elim conjE)
  from 1 2 3 4 show ?thesis
    by (simp add: c nextGameId_lobby del: creations.simps)
qed

text \<open>
  The claim as stated fails where the counter is exhausted: after the address 161 has
  created \<open>2^256 - 1\<close> games, a reachable state, \<open>createGame\<close> reverts.
\<close>

theorem createGame_allocates_counterexample:
  "reachable env0 (soloGames (- 1)) \<and> createGame 162 (soloGames (- 1)) = Inl (Panic 17)"
proof -
  have "createGame 162 (soloGames (- 1)) = Inl (Panic 17)"
    by (simp add: createGame_def soloGames_def)
  with reachable_crowded show ?thesis by simp
qed

subsection \<open>Grants\<close>

lemma exec_acl:
  assumes "\<forall>g. c \<noteq> StartGame g"
  shows "acl (snd (exec env blk sender c s)) = acl s"
proof (cases c)
  case CreateGame
  then show ?thesis
    by (auto simp: createGame_def addPlayer_def setGame_def commit_def Let_def)
next
  case (JoinGame gameId)
  then show ?thesis by (auto simp: joinGame_eq joinedState_def commit_def Let_def)
next
  case (StartGame gameId)
  then show ?thesis using assms by simp
next
  case (Attack gameId target)
  then show ?thesis by (auto simp: attack_def setGame_def commit_def Let_def)
qed simp_all

lemma grants_iff:
  "(h, a) \<in> grants me hs ps \<longleftrightarrow> (\<exists>j<4. get4 hs j = h \<and> (a = me \<or> a = get4 ps j))"
proof
  assume "(h, a) \<in> grants me hs ps"
  then obtain j where "j \<in> {0, 1, 2, 3::nat}" "get4 hs j = h" "a = me \<or> a = get4 ps j"
    unfolding grants_def by blast
  moreover from this(1) have "j < 4" by auto
  ultimately show "\<exists>j<4. get4 hs j = h \<and> (a = me \<or> a = get4 ps j)" by blast
next
  assume "\<exists>j<4. get4 hs j = h \<and> (a = me \<or> a = get4 ps j)"
  then obtain j where j: "j < 4" "get4 hs j = h" "a = me \<or> a = get4 ps j" by blast
  from j(1) have "j \<in> {0, 1, 2, 3::nat}" by auto
  with j(2,3) show "(h, a) \<in> grants me hs ps"
    unfolding grants_def by blast
qed

text \<open>
  What \<open>startGame\<close> grants, for any engine: on each of the four handles it has stored,
  one grant to the contract's own address and one to the player of that seat. No other
  call of the contract touches the access control list.
\<close>

lemma startGame_acl:
  assumes "startGame env blk caller gameId s = Inr (evs, s')"
  shows "acl s' = acl s \<union> grants (self env) (encryptedRoles (games s' gameId)) (players (games s' gameId))"
    and "players (games s' gameId) = players (games s gameId)"
proof -
  from assms have s': "s' = startedState env blk caller gameId s"
    by (simp add: startGame_eq split: if_splits)
  show "acl s' = acl s \<union> grants (self env) (encryptedRoles (games s' gameId)) (players (games s' gameId))"
    by (simp add: s' startedState_def Let_def)
  show "players (games s' gameId) = players (games s gameId)"
    by (simp add: s' startedState_def Let_def)
qed

subsection \<open>Handles shared between seats\<close>

lemmas start_defs = startGame_eq startedState_def grants_def sealed_def shuffled_def swap4_def
  spec_seed_def

lemma games_lobby1:
  "games lobby1 0 = \<lparr> creator = 161, players = Arr4 161 162 163 164,
     encryptedRoles = Arr4 0 0 0 0, roles = Arr4 0 0 0 0, alive = Arr4 True True True True,
     playerCount = 4, started = False \<rparr>"
  by (simp add: lobby1_def genesis1_def env1_def run_defs)

lemma playerIndex_lobby1: "playerIndex lobby1 0 162 = 2"
  by (simp add: lobby1_def genesis1_def env1_def run_defs)

lemma acl_lobby1: "acl lobby1 = {}"
  by (simp add: lobby1_def genesis1_def env1_def run_defs)

lemma startGame_lobby1:
  "startGame env1 blk0 162 0 lobby1 = Inr ([GameStarted 0], startedState env1 blk0 162 0 lobby1)"
  by (simp add: startGame_eq games_lobby1 playerIndex_lobby1)

lemma night1_eq: "night1 = startedState env1 blk0 162 0 lobby1"
  by (simp add: night1_def startGame_lobby1 commit_def)

lemma games_night1:
  "games night1 0 = \<lparr> creator = 161, players = Arr4 161 162 163 164,
     encryptedRoles = Arr4 3 1 1 2, roles = Arr4 3 1 1 2, alive = Arr4 True True True True,
     playerCount = 4, started = True \<rparr>"
  by (simp add: night1_eq startedState_def games_lobby1 shuffled_def sealed_def swap4_def
      spec_seed_def env1_def blk0_def Let_def)

lemma acl_night1:
  "acl night1 = {(3, 4096), (3, 161), (1, 4096), (1, 162), (1, 163), (2, 4096), (2, 164)}"
  by (auto simp: night1_eq startedState_def grants_def acl_lobby1 games_lobby1 sealed_def
      shuffled_def swap4_def spec_seed_def env1_def blk0_def Let_def)

lemma acl_dusk1:
  "acl dusk1 = {(3, 4096), (3, 161), (1, 4096), (1, 162), (1, 163), (2, 4096), (2, 164),
     (1, 165), (3, 166), (1, 167), (2, 168)}"
  by (auto simp: dusk1_def night1_def lobby1_def genesis1_def env1_def run_defs start_defs)

lemma games_dusk1: "games dusk1 0 = games night1 0"
  by (simp add: dusk1_def night1_def lobby1_def genesis1_def env1_def run_defs start_defs)

lemma reachable_lobby1: "reachable env1 lobby1"
proof -
  have "reachable env1 genesis1"
    by (rule reachable_deployed) (simp add: deployed_def genesis1_def)
  then show ?thesis
    unfolding lobby1_def by (rule reachable_run) simp
qed

lemma reachable_dusk1: "reachable env1 dusk1"
proof -
  have "reachable env1 night1"
    unfolding night1_def by (rule reachable_run[OF reachable_lobby1]) simp
  then show ?thesis
    unfolding dusk1_def by (rule reachable_run) simp
qed

text \<open>
  Claim C2 says that the handle of every seat is granted to exactly two addresses, the
  contract and the player of that seat, and to no other address, ever. The contract does
  not achieve this. The loop of \<^verbatim>\<open>startGame\<close> grants per seat, but the handle it stores for
  a seat is whatever \<^verbatim>\<open>FHE.asEuint8\<close> returns for the plaintext role, and nothing in the
  contract makes it the seat's own, although the repository's README promises that "only
  the assigned player can decrypt and view their role". Evaluated with an engine whose
  handle is determined by
  the plaintext: in game 0 the two Villagers, at seats 1 and 2, hold the same handle, which
  is granted to the contract, to 162 and to 163; and the handle of the Werewolf of game 0,
  which has the two grantees of the claim right after the start, is granted to 168, the
  Werewolf of game 1, when game 1 starts.
\<close>

theorem startGame_shares_handles:
  "reachable env1 lobby1
   \<and> startGame env1 blk0 162 0 lobby1 = Inr ([GameStarted 0], night1)
   \<and> players (games night1 0) = Arr4 161 162 163 164
   \<and> encryptedRoles (games night1 0) = Arr4 3 1 1 2
   \<and> {a. (get4 (encryptedRoles (games night1 0)) 1, a) \<in> acl night1} = {self env1, 162, 163}
   \<and> 163 \<notin> {self env1, 162}
   \<and> {a. (get4 (encryptedRoles (games night1 0)) 3, a) \<in> acl night1} = {self env1, 164}
   \<and> reachable env1 dusk1
   \<and> games dusk1 0 = games night1 0
   \<and> {a. (get4 (encryptedRoles (games dusk1 0)) 3, a) \<in> acl dusk1} = {self env1, 164, 168}
   \<and> 168 \<notin> {self env1, 164}"
proof -
  have se: "self env1 = 4096"
    by (simp add: env1_def)
  have st: "startGame env1 blk0 162 0 lobby1 = Inr ([GameStarted 0], night1)"
    by (simp add: startGame_lobby1 night1_eq)
  have 1: "{a. ((1::euint8), a) \<in> acl night1} = {4096, 162, 163}"
    by (auto simp: acl_night1)
  have 2: "{a. ((2::euint8), a) \<in> acl night1} = {4096, 164}"
    by (auto simp: acl_night1)
  have 3: "{a. ((2::euint8), a) \<in> acl dusk1} = {4096, 164, 168}"
    by (auto simp: acl_dusk1)
  show ?thesis
    by (simp add: reachable_lobby1 reachable_dusk1 st se games_dusk1 games_night1 1 2 3)
qed

end
